theory Spec2Isabelle
  imports Main
begin

section \<open>Data model: values, instructions, the function body\<close>

text \<open>
  The pass of \<^verbatim>\<open>GVN.cpp\<close> works on LLVM values through pointers. A pointer
  (\<^verbatim>\<open>Value *\<close>, \<^verbatim>\<open>BasicBlock *\<close>) is a natural number here (its address), and the
  objects it points to live in a heap, a function from addresses to values.
  What the pass reads of a value is a field of the model: the opcode, the operand list,
  the class of the instruction (\<^verbatim>\<open>isBinaryOp\<close>, \<^verbatim>\<open>isa<CmpInst>\<close>, \<^verbatim>\<open>isa<LoadInst>\<close>,
  \<^verbatim>\<open>isa<PHINode>\<close>), the predicate of a comparison, the address space of a load, the
  incoming blocks of a phi, and the three eligibility tests of the driver.
\<close>

type_synonym vref = nat
type_synonym bref = nat

datatype llvm_type = IntegerTy nat | PointerTy nat | FloatTy | VoidTy

datatype ikind =
    BinaryOp
  | CmpInst nat
  | LoadInst nat
  | PHINode "bref list"
  | OtherInst

record inst =
  getOpcode :: nat
  operands :: "vref list"
  kind :: ikind
  instType :: llvm_type
  isCommutative :: bool
  isTerminator :: bool
  mayHaveSideEffects :: bool
  isEHPad :: bool

datatype val =
    Constant bool llvm_type
  | Argument llvm_type
  | Instruction inst

type_synonym heap = "vref \<Rightarrow> val"

fun isNullConstant :: "val \<Rightarrow> bool" where
  "isNullConstant (Constant z t) = z"
| "isNullConstant (Argument t) = False"
| "isNullConstant (Instruction i) = False"

fun getType :: "val \<Rightarrow> llvm_type" where
  "getType (Constant z t) = t"
| "getType (Argument t) = t"
| "getType (Instruction i) = instType i"

fun isBinaryOp :: "inst \<Rightarrow> bool" where
  "isBinaryOp i = (kind i = BinaryOp)"

fun isCmpInst :: "inst \<Rightarrow> bool" where
  "isCmpInst i = (case kind i of CmpInst p \<Rightarrow> True | _ \<Rightarrow> False)"

fun isLoadInst :: "inst \<Rightarrow> bool" where
  "isLoadInst i = (case kind i of LoadInst a \<Rightarrow> True | _ \<Rightarrow> False)"

fun isPHINode :: "inst \<Rightarrow> bool" where
  "isPHINode i = (case kind i of PHINode bs \<Rightarrow> True | _ \<Rightarrow> False)"

section \<open>Decimal output of the string stream\<close>

text \<open>
  \<^verbatim>\<open>OS << n\<close> on an \<^verbatim>\<open>unsigned\<close> writes the decimal digits of \<open>n\<close>.
\<close>

definition digitChar :: "nat \<Rightarrow> char" where
  "digitChar d = ''0123456789'' ! d"

function showUnsigned :: "nat \<Rightarrow> string" where
  "showUnsigned n =
     (if n < 10 then [digitChar n] else showUnsigned (n div 10) @ [digitChar (n mod 10)])"
  by pat_completeness auto
termination
  by (relation "measure id") auto

declare showUnsigned.simps [simp del]

section \<open>The value table\<close>

text \<open>
  \<^verbatim>\<open>struct ValueTable\<close>: three maps and the counter. \<^verbatim>\<open>ValueNumber\<close> is
  \<^verbatim>\<open>unsigned\<close>, so \<^verbatim>\<open>nextValueNumber++\<close> wraps at \<open>2 ^ 32\<close>; the cast
  \<^verbatim>\<open>(unsigned)(intptr_t)InBB\<close> keeps the low 32 bits of the block's address.
\<close>

record ValueTable =
  valueNumbering :: "vref \<rightharpoonup> nat"
  expressionNumbering :: "string \<rightharpoonup> nat"
  numberToValue :: "nat \<rightharpoonup> vref"
  nextValueNumber :: nat

definition emptyTable :: ValueTable where
  "emptyTable = \<lparr> valueNumbering = Map.empty, expressionNumbering = Map.empty,
                  numberToValue = Map.empty, nextValueNumber = 1 \<rparr>"

definition incr32 :: "nat \<Rightarrow> nat" where
  "incr32 n = (n + 1) mod 2 ^ 32"

definition truncPtr :: "nat \<Rightarrow> nat" where
  "truncPtr p = p mod 2 ^ 32"

text \<open>The label \<^verbatim>\<open>CreateNewNumber\<close>: a fresh number, no signature recorded.\<close>

definition createNewNumber :: "ValueTable \<Rightarrow> vref \<Rightarrow> nat \<times> ValueTable" where
  "createNewNumber vt v =
     (let VN = nextValueNumber vt in
      (VN, vt\<lparr> valueNumbering := (valueNumbering vt)(v \<mapsto> VN),
               numberToValue := (numberToValue vt)(VN \<mapsto> v),
               nextValueNumber := incr32 VN \<rparr>))"

text \<open>
  The tail of \<^verbatim>\<open>lookupOrAddValue\<close> for a handled instruction, once its expression
  string is known.
\<close>

definition numberExpression :: "ValueTable \<Rightarrow> vref \<Rightarrow> string \<Rightarrow> nat \<times> ValueTable" where
  "numberExpression vt v Expression =
     (case expressionNumbering vt Expression of
        Some VN \<Rightarrow> (VN, vt\<lparr> valueNumbering := (valueNumbering vt)(v \<mapsto> VN) \<rparr>)
      | None \<Rightarrow>
          (let VN = nextValueNumber vt in
           (VN, vt\<lparr> valueNumbering := (valueNumbering vt)(v \<mapsto> VN),
                    expressionNumbering := (expressionNumbering vt)(Expression \<mapsto> VN),
                    numberToValue := (numberToValue vt)(VN \<mapsto> v),
                    nextValueNumber := incr32 VN \<rparr>)))"

text \<open>
  What \<^verbatim>\<open>getExpressionString\<close> writes once the operands are numbered: the opcode,
  then for a phi each incoming number with the truncated address of its block, for any
  other instruction each operand number, then the address space of a load and the
  predicate of a comparison.
\<close>

fun phiTokens :: "nat list \<Rightarrow> bref list \<Rightarrow> string" where
  "phiTokens (k # ks) (b # bs) =
     showUnsigned k @ '' '' @ showUnsigned (truncPtr b) @ '' '' @ phiTokens ks bs"
| "phiTokens ks bs = []"

fun operandTokens :: "nat list \<Rightarrow> string" where
  "operandTokens [] = []"
| "operandTokens (k # ks) = showUnsigned k @ '' '' @ operandTokens ks"

definition expressionString :: "inst \<Rightarrow> nat list \<Rightarrow> string" where
  "expressionString i ks =
     showUnsigned (getOpcode i) @ '' '' @
     (case kind i of
        PHINode bs \<Rightarrow> phiTokens ks bs
      | LoadInst a \<Rightarrow> operandTokens ks @ showUnsigned a @ '' ''
      | CmpInst p \<Rightarrow> operandTokens ks @ showUnsigned p @ '' ''
      | _ \<Rightarrow> operandTokens ks)"

definition handled :: "inst \<Rightarrow> bool" where
  "handled i = (isBinaryOp i \<or> isCmpInst i \<or> isLoadInst i \<or> isPHINode i)"

text \<open>
  \<^verbatim>\<open>lookupOrAddValue\<close> and \<^verbatim>\<open>getExpressionString\<close> call each other with no bound in
  the source. The first argument counts the nested calls still allowed; \<open>None\<close> is the
  recursion that has not returned within them. A call that does not recurse returns at
  any count.
\<close>

fun lookupOrAddValue :: "nat \<Rightarrow> heap \<Rightarrow> ValueTable \<Rightarrow> vref \<Rightarrow> (nat \<times> ValueTable) option"
and numberOperands :: "nat \<Rightarrow> heap \<Rightarrow> ValueTable \<Rightarrow> vref list \<Rightarrow> (nat list \<times> ValueTable) option"
and getExpressionString :: "nat \<Rightarrow> heap \<Rightarrow> ValueTable \<Rightarrow> inst \<Rightarrow> (string \<times> ValueTable) option"
where
  "lookupOrAddValue n H vt v =
     (if isNullConstant (H v) then Some (0, vt)
      else case valueNumbering vt v of
        Some VN \<Rightarrow> Some (VN, vt)
      | None \<Rightarrow>
          (case H v of
             Instruction i \<Rightarrow>
               if \<not> handled i then Some (createNewNumber vt v)
               else (case n of
                       0 \<Rightarrow> None
                     | Suc m \<Rightarrow>
                         (case getExpressionString m H vt i of
                            None \<Rightarrow> None
                          | Some (Expression, vt') \<Rightarrow> Some (numberExpression vt' v Expression)))
           | _ \<Rightarrow> Some (createNewNumber vt v)))"
| "numberOperands n H vt [] = Some ([], vt)"
| "numberOperands n H vt (v # vs) =
     (case lookupOrAddValue n H vt v of
        None \<Rightarrow> None
      | Some (k, vt') \<Rightarrow>
          (case numberOperands n H vt' vs of
             None \<Rightarrow> None
           | Some (ks, vt'') \<Rightarrow> Some (k # ks, vt'')))"
| "getExpressionString n H vt i =
     (case numberOperands n H vt (operands i) of
        None \<Rightarrow> None
      | Some (ks, vt') \<Rightarrow> Some (expressionString i ks, vt'))"

text \<open>
  \<^verbatim>\<open>areEqual\<close> compares the two numbers. The source leaves the order of the two calls
  to the compiler; the model numbers \<open>V1\<close> first.
\<close>

definition areEqual :: "nat \<Rightarrow> heap \<Rightarrow> ValueTable \<Rightarrow> vref \<Rightarrow> vref \<Rightarrow> (bool \<times> ValueTable) option" where
  "areEqual n H vt V1 V2 =
     (case lookupOrAddValue n H vt V1 of
        None \<Rightarrow> None
      | Some (k1, vt1) \<Rightarrow>
          (case lookupOrAddValue n H vt1 V2 of
             None \<Rightarrow> None
           | Some (k2, vt2) \<Rightarrow> Some (k1 = k2, vt2)))"


declare lookupOrAddValue.simps [simp del]
declare getExpressionString.simps [simp del]

section \<open>The driver\<close>

text \<open>
  The function body is the list of its blocks in layout order, each with its
  instructions in program order. The dominator tree and the dominance test between two
  instructions come from the host's \<^verbatim>\<open>DominatorTree\<close>; the pass takes them as given, and
  so does the model. \<^verbatim>\<open>post_order\<close> is the host's iterator: the subtrees of the
  children in order, then the node.
\<close>

type_synonym func = "(bref \<times> vref list) list"

datatype DomTreeNode = DomTreeNode bref "DomTreeNode list"

fun post_order :: "DomTreeNode \<Rightarrow> bref list" where
  "post_order (DomTreeNode b cs) = concat (map post_order cs) @ [b]"

fun getBlock :: "DomTreeNode \<Rightarrow> bref" where
  "getBlock (DomTreeNode b cs) = b"

definition instsOf :: "func \<Rightarrow> bref \<Rightarrow> vref list" where
  "instsOf F b = (case map_of F b of Some is \<Rightarrow> is | None \<Rightarrow> [])"

text \<open>
  The state of one run: the value table, \<^verbatim>\<open>toRemove\<close>, \<^verbatim>\<open>replacements\<close> and
  \<^verbatim>\<open>Changed\<close>. \<^verbatim>\<open>toRemove\<close> is a \<^verbatim>\<open>SmallPtrSet\<close>; the list keeps its members in the
  order of their first insertion, which is the order the small set is walked in. The two
  statistics counters are not part of the model.
\<close>

record GVNState =
  VT :: ValueTable
  toRemove :: "vref list"
  replacements :: "vref \<rightharpoonup> vref"
  Changed :: bool

definition initState :: GVNState where
  "initState = \<lparr> VT = emptyTable, toRemove = [], replacements = Map.empty, Changed = False \<rparr>"

definition insertPtr :: "vref \<Rightarrow> vref list \<Rightarrow> vref list" where
  "insertPtr x xs = (if x \<in> set xs then xs else xs @ [x])"

definition schedule :: "GVNState \<Rightarrow> vref \<Rightarrow> vref \<Rightarrow> GVNState" where
  "schedule st I R =
     st\<lparr> toRemove := insertPtr I (toRemove st),
         replacements := (replacements st)(I \<mapsto> R),
         Changed := True \<rparr>"

fun isInstruction :: "val \<Rightarrow> bool" where
  "isInstruction (Instruction i) = True"
| "isInstruction v = False"

text \<open>First pass: a phi whose incoming values are all the same pointer.\<close>

definition prePassInst :: "heap \<Rightarrow> GVNState \<Rightarrow> vref \<Rightarrow> GVNState" where
  "prePassInst H st I =
     (case H I of
        Instruction i \<Rightarrow>
          if isPHINode i then
            (case operands i of
               [] \<Rightarrow> st
             | FirstVal # rest \<Rightarrow>
                 if list_all (\<lambda>v. v = FirstVal) rest then schedule st I FirstVal else st)
          else st
      | _ \<Rightarrow> st)"

definition prePass :: "heap \<Rightarrow> func \<Rightarrow> GVNState \<Rightarrow> GVNState" where
  "prePass H F st = fold (\<lambda>I s. prePassInst H s I) (concat (map snd F)) st"

text \<open>
  The loop of the main pass over the incoming values of a phi, from index 1:
  \<^verbatim>\<open>InVal != CommonValue && !VT.areEqual(InVal, CommonValue)\<close> ends it with
  \<^verbatim>\<open>AllSame = false\<close>.
\<close>

fun phiAllSame :: "nat \<Rightarrow> heap \<Rightarrow> ValueTable \<Rightarrow> vref \<Rightarrow> vref list \<Rightarrow> (bool \<times> ValueTable) option" where
  "phiAllSame n H vt CommonValue [] = Some (True, vt)"
| "phiAllSame n H vt CommonValue (InVal # rest) =
     (if InVal \<noteq> CommonValue then
        (case areEqual n H vt InVal CommonValue of
           None \<Rightarrow> None
         | Some (eq, vt') \<Rightarrow>
             if \<not> eq then Some (False, vt') else phiAllSame n H vt' CommonValue rest)
      else phiAllSame n H vt CommonValue rest)"

text \<open>Lines 376 to 395: number the instruction, and schedule it when redundant.\<close>

definition numberInst :: "nat \<Rightarrow> heap \<Rightarrow> (vref \<Rightarrow> vref \<Rightarrow> bool) \<Rightarrow> GVNState \<Rightarrow> vref \<Rightarrow> GVNState option" where
  "numberInst n H dominates st Inst =
     (case lookupOrAddValue n H (VT st) Inst of
        None \<Rightarrow> None
      | Some (VN, vt') \<Rightarrow>
          Some (case numberToValue vt' VN of
                  None \<Rightarrow> st\<lparr> VT := vt' \<rparr>
                | Some Earlier \<Rightarrow>
                    if Earlier \<noteq> Inst \<and> isInstruction (H Earlier) \<and> dominates Earlier Inst
                    then schedule (st\<lparr> VT := vt' \<rparr>) Inst Earlier
                    else st\<lparr> VT := vt' \<rparr>))"

definition processInst :: "nat \<Rightarrow> heap \<Rightarrow> (vref \<Rightarrow> vref \<Rightarrow> bool) \<Rightarrow> GVNState \<Rightarrow> vref \<Rightarrow> GVNState option" where
  "processInst n H dominates st Inst =
     (case H Inst of
        Instruction i \<Rightarrow>
          if isTerminator i \<or> mayHaveSideEffects i \<or> isEHPad i then Some st
          else if isPHINode i then
            (case operands i of
               [] \<Rightarrow> Some st
             | CommonValue # rest \<Rightarrow>
                 (case phiAllSame n H (VT st) CommonValue rest of
                    None \<Rightarrow> None
                  | Some (AllSame, vt') \<Rightarrow>
                      if AllSame then Some (schedule (st\<lparr> VT := vt' \<rparr>) Inst CommonValue)
                      else numberInst n H dominates (st\<lparr> VT := vt' \<rparr>) Inst))
          else numberInst n H dominates st Inst
      | _ \<Rightarrow> Some st)"

fun processInsts :: "nat \<Rightarrow> heap \<Rightarrow> (vref \<Rightarrow> vref \<Rightarrow> bool) \<Rightarrow> GVNState \<Rightarrow> vref list \<Rightarrow> GVNState option" where
  "processInsts n H dominates st [] = Some st"
| "processInsts n H dominates st (Inst # rest) =
     (case processInst n H dominates st Inst of
        None \<Rightarrow> None
      | Some st' \<Rightarrow> processInsts n H dominates st' rest)"

definition visitOrder :: "func \<Rightarrow> DomTreeNode \<Rightarrow> vref list" where
  "visitOrder F root = concat (map (instsOf F) (post_order root))"

definition mainPass :: "nat \<Rightarrow> heap \<Rightarrow> func \<Rightarrow> DomTreeNode \<Rightarrow> (vref \<Rightarrow> vref \<Rightarrow> bool) \<Rightarrow> GVNState \<Rightarrow> GVNState option" where
  "mainPass n H F root dominates st = processInsts n H dominates st (visitOrder F root)"

text \<open>The two passes together: the schedule of one run.\<close>

definition analyse :: "nat \<Rightarrow> heap \<Rightarrow> func \<Rightarrow> DomTreeNode \<Rightarrow> (vref \<Rightarrow> vref \<Rightarrow> bool) \<Rightarrow> GVNState option" where
  "analyse n H F root dominates = mainPass n H F root dominates (prePass H F initState)"

text \<open>
  The apply phase. \<^verbatim>\<open>replaceAllUsesWith\<close> rewrites every operand that is \<open>I\<close>;
  \<^verbatim>\<open>eraseFromParent\<close> takes \<open>I\<close> out of its block.
\<close>

definition replaceAllUsesWith :: "heap \<Rightarrow> vref \<Rightarrow> vref \<Rightarrow> heap" where
  "replaceAllUsesWith H I R =
     (\<lambda>v. case H v of
             Instruction i \<Rightarrow>
               Instruction (i\<lparr> operands := map (\<lambda>x. if x = I then R else x) (operands i) \<rparr>)
           | other \<Rightarrow> other)"

definition eraseFromParent :: "func \<Rightarrow> vref \<Rightarrow> func" where
  "eraseFromParent F I = map (\<lambda>(b, is). (b, removeAll I is)) F"

definition applyOne :: "(vref \<rightharpoonup> vref) \<Rightarrow> vref \<Rightarrow> heap \<times> func \<Rightarrow> heap \<times> func" where
  "applyOne repl I HF =
     (case repl I of
        None \<Rightarrow> HF
      | Some R \<Rightarrow> (replaceAllUsesWith (fst HF) I R, eraseFromParent (snd HF) I))"

definition applyPhase :: "GVNState \<Rightarrow> heap \<times> func \<Rightarrow> heap \<times> func" where
  "applyPhase st HF = fold (applyOne (replacements st)) (toRemove st) HF"

text \<open>
  \<^verbatim>\<open>GVN::run\<close>: the verdict (\<open>True\<close> for \<^verbatim>\<open>PreservedAnalyses::none()\<close>) and the
  function after the apply phase.
\<close>

definition run :: "nat \<Rightarrow> heap \<Rightarrow> func \<Rightarrow> DomTreeNode \<Rightarrow> (vref \<Rightarrow> vref \<Rightarrow> bool) \<Rightarrow> (bool \<times> heap \<times> func) option" where
  "run n H F root dominates =
     (case analyse n H F root dominates of
        None \<Rightarrow> None
      | Some st \<Rightarrow> Some (Changed st, applyPhase st (H, F)))"


section \<open>Example functions\<close>

text \<open>
  Opcodes are LLVM's: 1 \<^verbatim>\<open>ret\<close>, 2 \<^verbatim>\<open>br\<close>, 13 \<^verbatim>\<open>add\<close>, 32 \<^verbatim>\<open>load\<close>, 39 \<^verbatim>\<open>zext\<close>,
  55 \<^verbatim>\<open>phi\<close>. In every example the addresses of the instructions grow along the
  control flow, and unless said otherwise \<open>(<)\<close> on them is the dominance between
  instructions of that function.
\<close>

definition mkInst :: "nat \<Rightarrow> vref list \<Rightarrow> ikind \<Rightarrow> llvm_type \<Rightarrow> inst" where
  "mkInst opc ops k t =
     \<lparr> getOpcode = opc, operands = ops, kind = k, instType = t, isCommutative = False,
       isTerminator = False, mayHaveSideEffects = False, isEHPad = False \<rparr>"

definition addInst :: "vref \<Rightarrow> vref \<Rightarrow> inst" where
  "addInst x y = (mkInst 13 [x, y] BinaryOp (IntegerTy 32))\<lparr> isCommutative := True \<rparr>"

definition loadInst :: "llvm_type \<Rightarrow> vref \<Rightarrow> inst" where
  "loadInst t p = mkInst 32 [p] (LoadInst 0) t"

definition zextInst :: "vref \<Rightarrow> inst" where
  "zextInst x = mkInst 39 [x] OtherInst (IntegerTy 64)"

definition phiInst :: "(vref \<times> bref) list \<Rightarrow> inst" where
  "phiInst inc = mkInst 55 (map fst inc) (PHINode (map snd inc)) (IntegerTy 32)"

definition brInst :: inst where
  "brInst = (mkInst 2 [] OtherInst VoidTy)\<lparr> isTerminator := True \<rparr>"

definition retInst :: "vref \<Rightarrow> inst" where
  "retInst x = (mkInst 1 [x] OtherInst VoidTy)\<lparr> isTerminator := True \<rparr>"

definition argHeap :: heap where
  "argHeap = (\<lambda>v. Argument (IntegerTy 32))"

text \<open>
  One block: \<^verbatim>\<open>%3 = add i32 %1, %2\<close>, \<^verbatim>\<open>%4 = add i32 %2, %1\<close>, \<^verbatim>\<open>ret %4\<close>.
\<close>

definition swapHeap :: heap where
  "swapHeap = argHeap(3 := Instruction (addInst 1 2), 4 := Instruction (addInst 2 1),
                      5 := Instruction (retInst 4))"

definition swapFunc :: func where
  "swapFunc = [(100, [3, 4, 5])]"

text \<open>
  Two blocks, 100 the entry and 101 its only successor:
  \<^verbatim>\<open>%3 = add i32 %1, %2\<close>, \<^verbatim>\<open>br\<close> in 100 and \<^verbatim>\<open>%5 = add i32 %1, %2\<close>,
  \<^verbatim>\<open>ret %5\<close> in 101.
\<close>

definition domHeap :: heap where
  "domHeap = argHeap(3 := Instruction (addInst 1 2), 4 := Instruction brInst,
                     5 := Instruction (addInst 1 2), 6 := Instruction (retInst 5))"

definition domFunc :: func where
  "domFunc = [(100, [3, 4]), (101, [5, 6])]"

definition twoBlockTree :: DomTreeNode where
  "twoBlockTree = DomTreeNode 100 [DomTreeNode 101 []]"

text \<open>
  A loop: block 100 branches to block 101, which branches to itself.
  \<^verbatim>\<open>%4 = phi i32 [ %1, 100 ], [ %5, 101 ]\<close>, \<^verbatim>\<open>%5 = add i32 %4, %2\<close>.
\<close>

definition loopHeap :: heap where
  "loopHeap = argHeap(3 := Instruction brInst, 4 := Instruction (phiInst [(1, 100), (5, 101)]),
                      5 := Instruction (addInst 4 2), 6 := Instruction brInst)"

definition loopFunc :: func where
  "loopFunc = [(100, [3]), (101, [4, 5, 6])]"

text \<open>
  One block, the pointer \<^verbatim>\<open>%1\<close> read at two types:
  \<^verbatim>\<open>%3 = load i32, ptr %1\<close>, \<^verbatim>\<open>%4 = load i64, ptr %1\<close>, \<^verbatim>\<open>ret %4\<close>.
\<close>

definition loadHeap :: heap where
  "loadHeap = (\<lambda>v. Argument (PointerTy 0))
                (3 := Instruction (loadInst (IntegerTy 32) 1),
                 4 := Instruction (loadInst (IntegerTy 64) 1),
                 5 := Instruction (retInst 4))"

definition loadFunc :: func where
  "loadFunc = [(100, [3, 4, 5])]"

text \<open>
  A chain of single-entry phis over the blocks 100, 101, 102:
  \<^verbatim>\<open>%4 = phi i32 [ %1, 100 ]\<close> in 101 and \<^verbatim>\<open>%6 = phi i32 [ %4, 101 ]\<close>,
  \<^verbatim>\<open>ret %6\<close> in 102.
\<close>

definition chainHeap :: heap where
  "chainHeap = argHeap(3 := Instruction brInst, 4 := Instruction (phiInst [(1, 100)]),
                       5 := Instruction brInst, 6 := Instruction (phiInst [(4, 101)]),
                       7 := Instruction (retInst 6))"

definition chainFunc :: func where
  "chainFunc = [(100, [3]), (101, [4, 5]), (102, [6, 7])]"

definition chainTree :: DomTreeNode where
  "chainTree = DomTreeNode 100 [DomTreeNode 101 [DomTreeNode 102 []]]"

text \<open>
  A phi that hides a redundancy, blocks 100 and 101:
  \<^verbatim>\<open>%4 = phi i32 [ %1, 100 ]\<close>, \<^verbatim>\<open>%5 = add i32 %1, %2\<close>,
  \<^verbatim>\<open>%6 = add i32 %4, %2\<close>, \<^verbatim>\<open>ret %6\<close> in 101.
\<close>

definition idemHeap :: heap where
  "idemHeap = argHeap(3 := Instruction brInst, 4 := Instruction (phiInst [(1, 100)]),
                      5 := Instruction (addInst 1 2), 6 := Instruction (addInst 4 2),
                      7 := Instruction (retInst 6))"

definition idemFunc :: func where
  "idemFunc = [(100, [3]), (101, [4, 5, 6, 7])]"

text \<open>Running the pass again on what the first run left.\<close>

definition runTwice :: "nat \<Rightarrow> heap \<Rightarrow> func \<Rightarrow> DomTreeNode \<Rightarrow> (vref \<Rightarrow> vref \<Rightarrow> bool) \<Rightarrow> (bool \<times> heap \<times> func) option" where
  "runTwice n H F root dominates =
     (case run n H F root dominates of
        None \<Rightarrow> None
      | Some (c, H', F') \<Rightarrow> run n H' F' root dominates)"

text \<open>
  Sibling blocks: the entry 100 branches to 101 and to 102, which both return.
  \<^verbatim>\<open>%4 = add i32 %1, %2\<close> in 101 and \<^verbatim>\<open>%6 = add i32 %1, %2\<close> in 102. Neither
  block dominates the other.
\<close>

definition sibHeap :: heap where
  "sibHeap = argHeap(3 := Instruction brInst, 4 := Instruction (addInst 1 2),
                     5 := Instruction (retInst 4), 6 := Instruction (addInst 1 2),
                     7 := Instruction (retInst 6))"

definition sibFunc :: func where
  "sibFunc = [(100, [3]), (101, [4, 5]), (102, [6, 7])]"

definition sibTree :: DomTreeNode where
  "sibTree = DomTreeNode 100 [DomTreeNode 101 [], DomTreeNode 102 []]"

definition sibDominates :: "vref \<Rightarrow> vref \<Rightarrow> bool" where
  "sibDominates e i = ((e, i) \<in> set [(3, 4), (3, 5), (3, 6), (3, 7), (4, 5), (6, 7)])"

text \<open>
  The run on the sibling blocks visits 4, 5, 6, 7, 3. The state before \<^verbatim>\<open>%6\<close> is
  visited, the table once \<^verbatim>\<open>%6\<close> is numbered, and the state at the end of the main pass.
\<close>

definition sibState :: GVNState where
  "sibState = the (processInsts 1 sibHeap sibDominates initState [4, 5])"

definition sibTable :: ValueTable where
  "sibTable = snd (the (lookupOrAddValue 1 sibHeap (VT sibState) 6))"

definition sibFinal :: GVNState where
  "sibFinal = the (processInsts 1 sibHeap sibDominates (sibState\<lparr> VT := sibTable \<rparr>) [7, 3])"

text \<open>
  One block with two identical casts: \<^verbatim>\<open>%3 = zext i32 %1 to i64\<close>,
  \<^verbatim>\<open>%4 = zext i32 %1 to i64\<close>, \<^verbatim>\<open>ret i64 %4\<close>.
\<close>

definition castHeap :: heap where
  "castHeap = argHeap(3 := Instruction (zextInst 1), 4 := Instruction (zextInst 1),
                      5 := Instruction (retInst 4))"

definition castFunc :: func where
  "castFunc = [(100, [3, 4, 5])]"

definition castFinal :: GVNState where
  "castFinal = the (analyse 0 castHeap castFunc (DomTreeNode 100 []) (<))"

text \<open>The tables of the one-block example after numbering \<^verbatim>\<open>%3\<close>, then \<^verbatim>\<open>%4\<close>.\<close>

definition swapTable1 :: ValueTable where
  "swapTable1 = snd (the (lookupOrAddValue 1 swapHeap emptyTable 3))"

definition swapTable2 :: ValueTable where
  "swapTable2 = snd (the (lookupOrAddValue 1 swapHeap swapTable1 4))"

text \<open>
  One block with a redundancy under a redundancy: \<^verbatim>\<open>%3 = add i32 %1, %2\<close>,
  \<^verbatim>\<open>%4 = add i32 %1, %2\<close>, \<^verbatim>\<open>%5 = mul i32 %3, %2\<close>, \<^verbatim>\<open>%6 = mul i32 %4, %2\<close>,
  \<^verbatim>\<open>%7 = add i32 %5, %6\<close>, \<^verbatim>\<open>ret i32 %7\<close>. 17 is the opcode of \<^verbatim>\<open>mul\<close>.
\<close>

definition mulInst :: "vref \<Rightarrow> vref \<Rightarrow> inst" where
  "mulInst x y = (mkInst 17 [x, y] BinaryOp (IntegerTy 32))\<lparr> isCommutative := True \<rparr>"

definition nestHeap :: heap where
  "nestHeap = argHeap(3 := Instruction (addInst 1 2), 4 := Instruction (addInst 1 2),
                      5 := Instruction (mulInst 3 2), 6 := Instruction (mulInst 4 2),
                      7 := Instruction (addInst 5 6), 8 := Instruction (retInst 7))"

definition nestFunc :: func where
  "nestFunc = [(100, [3, 4, 5, 6, 7, 8])]"

section \<open>Predicates of the proofs\<close>

text \<open>A value that \<^verbatim>\<open>lookupOrAddValue\<close> numbers through its expression string.\<close>

fun handledValue :: "val \<Rightarrow> bool" where
  "handledValue (Instruction i) = handled i"
| "handledValue v = False"

text \<open>The later table has every binding of the earlier one.\<close>

definition keepsNumbers :: "ValueTable \<Rightarrow> ValueTable \<Rightarrow> bool" where
  "keepsNumbers a b = (\<forall>w j. valueNumbering a w = Some j \<longrightarrow> valueNumbering b w = Some j)"

text \<open>
  An edge leads from a handled instruction with no number yet to each of its operands:
  these are the calls \<^verbatim>\<open>lookupOrAddValue\<close> makes from that instruction. A set is stuck
  when each of its members is such an instruction and has an operand in the set.
\<close>

definition pendingEdges :: "heap \<Rightarrow> ValueTable \<Rightarrow> (vref \<times> vref) set" where
  "pendingEdges H vt =
     {(a, b). \<exists>i. H a = Instruction i \<and> handled i \<and> valueNumbering vt a = None
                \<and> b \<in> set (operands i)}"

definition stuck :: "heap \<Rightarrow> ValueTable \<Rightarrow> vref set \<Rightarrow> bool" where
  "stuck H vt C =
     (\<forall>c\<in>C. \<exists>i. H c = Instruction i \<and> handled i \<and> valueNumbering vt c = None
                \<and> (\<exists>x\<in>set (operands i). x \<in> C))"

text \<open>
  The counter wraps after \<open>2 ^ 32 - 1\<close>. A table in which that last number has been
  given out is \<open>wrapped\<close>; numbers may repeat from then on. Until then the table keeps
  the following: the numbers given out are those from 1 up to the counter; the
  representative of the number of a node that is not handled is the node itself; the
  representative of the number of a handled instruction, and of the number of a
  signature, is a handled instruction.
\<close>

definition lastNumber :: nat where
  "lastNumber = 4294967295"

definition wrapped :: "ValueTable \<Rightarrow> bool" where
  "wrapped vt = (numberToValue vt lastNumber \<noteq> None)"

definition tableCore :: "heap \<Rightarrow> ValueTable \<Rightarrow> bool" where
  "tableCore H vt =
     (1 \<le> nextValueNumber vt \<and> nextValueNumber vt \<le> lastNumber
      \<and> dom (numberToValue vt) = {1..<nextValueNumber vt}
      \<and> (\<forall>v k. valueNumbering vt v = Some k \<longrightarrow>
            (if handledValue (H v)
             then \<exists>r. numberToValue vt k = Some r \<and> handledValue (H r)
             else numberToValue vt k = Some v))
      \<and> (\<forall>s k. expressionNumbering vt s = Some k \<longrightarrow>
            (\<exists>r. numberToValue vt k = Some r \<and> handledValue (H r))))"

text \<open>What one call does to these properties.\<close>

definition tableStep :: "heap \<Rightarrow> ValueTable \<Rightarrow> ValueTable \<Rightarrow> bool" where
  "tableStep H a b =
     ((wrapped a \<longrightarrow> wrapped b) \<and> (tableCore H a \<longrightarrow> wrapped b \<or> tableCore H b))"

text \<open>Every key of \<^verbatim>\<open>expressionNumbering\<close> is the string of a handled instruction.\<close>

definition signaturesHandled :: "heap \<Rightarrow> ValueTable \<Rightarrow> bool" where
  "signaturesHandled H vt =
     (\<forall>s k. expressionNumbering vt s = Some k \<longrightarrow>
        (\<exists>w i ks. H w = Instruction i \<and> handled i \<and> s = expressionString i ks))"

text \<open>The state of a run: as long as the table is not wrapped, only handled instructions are scheduled.\<close>

definition runInv :: "heap \<Rightarrow> GVNState \<Rightarrow> bool" where
  "runInv H st =
     (signaturesHandled H (VT st)
      \<and> (wrapped (VT st)
         \<or> tableCore H (VT st) \<and> (\<forall>x\<in>set (toRemove st). handledValue (H x))))"

definition runStep :: "heap \<Rightarrow> ValueTable \<Rightarrow> ValueTable \<Rightarrow> bool" where
  "runStep H a b = (tableStep H a b \<and> (signaturesHandled H a \<longrightarrow> signaturesHandled H b))"













text \<open>
  The function after the apply phase: every operand rewritten at once, a scheduled
  instruction to its replacement and any other value to itself.
\<close>

definition substHeap :: "(vref \<Rightarrow> vref) \<Rightarrow> heap \<Rightarrow> heap" where
  "substHeap f H =
     (\<lambda>v. case H v of
             Instruction i \<Rightarrow> Instruction (i\<lparr> operands := map f (operands i) \<rparr>)
           | other \<Rightarrow> other)"






section \<open>Evaluation\<close>

lemmas model_defs =
  areEqual_def emptyTable_def handled_def createNewNumber_def numberExpression_def
  expressionString_def incr32_def truncPtr_def showUnsigned.simps digitChar_def Let_def
  lookupOrAddValue.simps getExpressionString.simps analyse_def mainPass_def visitOrder_def
  instsOf_def prePass_def prePassInst_def initState_def processInst_def numberInst_def
  schedule_def insertPtr_def run_def runTwice_def applyPhase_def applyOne_def
  replaceAllUsesWith_def eraseFromParent_def

lemmas example_defs =
  mkInst_def addInst_def loadInst_def zextInst_def phiInst_def brInst_def retInst_def argHeap_def
  swapHeap_def swapFunc_def domHeap_def domFunc_def twoBlockTree_def loopHeap_def loopFunc_def
  loadHeap_def loadFunc_def chainHeap_def chainFunc_def chainTree_def idemHeap_def idemFunc_def
  sibHeap_def sibFunc_def sibTree_def sibDominates_def castHeap_def castFunc_def mulInst_def
  nestHeap_def nestFunc_def

section \<open>The cases of \<^verbatim>\<open>lookupOrAddValue\<close>\<close>

lemma lookup_null:
  "isNullConstant (H v) \<Longrightarrow> lookupOrAddValue n H vt v = Some (0, vt)"
  by (simp add: lookupOrAddValue.simps)

lemma lookup_found:
  "\<not> isNullConstant (H v) \<Longrightarrow> valueNumbering vt v = Some k \<Longrightarrow>
   lookupOrAddValue n H vt v = Some (k, vt)"
  by (simp add: lookupOrAddValue.simps)

lemma lookup_unhandled:
  "\<not> isNullConstant (H v) \<Longrightarrow> valueNumbering vt v = None \<Longrightarrow>
   \<not> handledValue (H v) \<Longrightarrow>
   lookupOrAddValue n H vt v = Some (createNewNumber vt v)"
  by (cases "H v") (simp_all add: lookupOrAddValue.simps)

lemma lookup_handled_0:
  "H v = Instruction i \<Longrightarrow> handled i \<Longrightarrow> valueNumbering vt v = None \<Longrightarrow>
   lookupOrAddValue 0 H vt v = None"
  by (simp add: lookupOrAddValue.simps)

lemma lookup_handled_Suc:
  "H v = Instruction i \<Longrightarrow> handled i \<Longrightarrow> valueNumbering vt v = None \<Longrightarrow>
   lookupOrAddValue (Suc n) H vt v =
     (case numberOperands n H vt (operands i) of
        None \<Rightarrow> None
      | Some (ks, vt') \<Rightarrow> Some (numberExpression vt' v (expressionString i ks)))"
  by (simp add: lookupOrAddValue.simps getExpressionString.simps split: option.splits)

lemma example_insts:
  "handled (phiInst inc)" "handled (addInst x y)"
  "operands (phiInst inc) = map fst inc" "operands (addInst x y) = [x, y]"
  by (simp_all add: handled_def phiInst_def addInst_def mkInst_def)

lemma lookup_cases:
  assumes "lookupOrAddValue n H vt v = Some (k, vt')"
  obtains
    (null) "isNullConstant (H v)" "k = 0" "vt' = vt"
  | (found) "\<not> isNullConstant (H v)" "valueNumbering vt v = Some k" "vt' = vt"
  | (fresh) "\<not> isNullConstant (H v)" "valueNumbering vt v = None" "\<not> handledValue (H v)"
      "createNewNumber vt v = (k, vt')"
  | (expr) m i ks vt1 where "n = Suc m" "H v = Instruction i" "handled i"
      "valueNumbering vt v = None" "numberOperands m H vt (operands i) = Some (ks, vt1)"
      "numberExpression vt1 v (expressionString i ks) = (k, vt')"
proof (cases "isNullConstant (H v)")
  case True
  with assms have "k = 0" "vt' = vt" by (simp_all add: lookup_null)
  with True show ?thesis by (rule null)
next
  case nn: False
  show ?thesis
  proof (cases "valueNumbering vt v")
    case (Some a)
    with assms nn have "a = k" "vt' = vt" by (simp_all add: lookup_found)
    with nn Some show ?thesis by (intro found) simp_all
  next
    case None
    show ?thesis
    proof (cases "handledValue (H v)")
      case False
      with assms nn None have "createNewNumber vt v = (k, vt')" by (simp add: lookup_unhandled)
      with nn None False show ?thesis by (rule fresh)
    next
      case True
      then obtain i where i: "H v = Instruction i" "handled i"
        by (cases "H v") simp_all
      show ?thesis
      proof (cases n)
        case 0
        with assms i None show ?thesis by (simp add: lookup_handled_0)
      next
        case (Suc m)
        with assms i None obtain ks vt1
          where "numberOperands m H vt (operands i) = Some (ks, vt1)"
            and "numberExpression vt1 v (expressionString i ks) = (k, vt')"
          by (auto simp: lookup_handled_Suc split: option.splits)
        with Suc i None show ?thesis by (intro expr)
      qed
    qed
  qed
qed

text \<open>
  The count of nested calls only cuts the recursion off: a call that returns within
  \<open>n\<close> nested calls returns the same number and table within any larger count.
\<close>

lemma operands_fuel_Suc:
  assumes L: "\<And>vt v k vt'. lookupOrAddValue n H vt v = Some (k, vt') \<Longrightarrow>
                lookupOrAddValue (Suc n) H vt v = Some (k, vt')"
  shows "numberOperands n H vt vs = Some r \<Longrightarrow> numberOperands (Suc n) H vt vs = Some r"
proof (induction vs arbitrary: vt r)
  case Nil
  then show ?case by simp
next
  case (Cons a vs)
  from Cons.prems obtain k vt1 ks' vt2 where a: "lookupOrAddValue n H vt a = Some (k, vt1)"
    and o: "numberOperands n H vt1 vs = Some (ks', vt2)" and r: "r = (k # ks', vt2)"
    by (auto split: option.splits)
  from L[OF a] Cons.IH[OF o] r show ?case by simp
qed

lemma lookup_fuel_Suc:
  "lookupOrAddValue n H vt v = Some (k, vt') \<Longrightarrow>
   lookupOrAddValue (Suc n) H vt v = Some (k, vt')"
proof (induction n arbitrary: vt v k vt')
  case 0
  then show ?case
    by (cases rule: lookup_cases) (simp_all add: lookup_null lookup_found lookup_unhandled)
next
  case (Suc n)
  from Suc.prems show ?case
  proof (cases rule: lookup_cases)
    case (expr m i ks vt1)
    then have "numberOperands (Suc n) H vt (operands i) = Some (ks, vt1)"
      using operands_fuel_Suc[of n H vt "operands i" "(ks, vt1)"] Suc.IH by simp
    with expr show ?thesis by (simp add: lookup_handled_Suc)
  qed (simp_all add: lookup_null lookup_found lookup_unhandled)
qed

lemma lookup_fuel_mono:
  "lookupOrAddValue n H vt v = Some (k, vt') \<Longrightarrow> n \<le> m \<Longrightarrow>
   lookupOrAddValue m H vt v = Some (k, vt')"
  by (induction m) (auto simp: le_Suc_eq dest: lookup_fuel_Suc)

section \<open>Zero constants\<close>

text \<open>
  C6. A null constant gets the reserved number 0 from \<^verbatim>\<open>lookupOrAddValue\<close> before
  anything else is looked at: the table is left as it was, no expression string is
  built, and the call returns whatever the recursion budget. Two null constants, at
  different addresses and of any types, are therefore judged equal.
\<close>

theorem C6_null_constant_is_zero:
  assumes "H v = Constant True t" and "H w = Constant True t'"
  shows "lookupOrAddValue n H vt v = Some (0, vt)
       \<and> areEqual n H vt v w = Some (True, vt)"
  using assms by (simp add: lookupOrAddValue.simps areEqual_def)

theorem C6_null_constant_is_zero_witness:
  "lookupOrAddValue 0 (argHeap(7 := Constant True (IntegerTy 32), 8 := Constant True (IntegerTy 32)))
      emptyTable 7 = Some (0, emptyTable)
   \<and> areEqual 0 (argHeap(7 := Constant True (IntegerTy 32), 8 := Constant True (IntegerTy 32)))
      emptyTable 7 8 = Some (True, emptyTable)"
  using C6_null_constant_is_zero
    [of "argHeap(7 := Constant True (IntegerTy 32), 8 := Constant True (IntegerTy 32))" 7
        "IntegerTy 32" 8 "IntegerTy 32" 0 emptyTable]
  by simp

section \<open>Commutative operations\<close>

text \<open>
  C1. The claim is that two instructions with the same commutative opcode and swapped
  operands get the same value number and that the dominated one is eliminated. On
  \<^verbatim>\<open>%3 = add %1, %2\<close> and \<^verbatim>\<open>%4 = add %2, %1\<close> of one block the code builds the two
  strings \<^verbatim>\<open>"13 1 2 "\<close> and \<^verbatim>\<open>"13 2 1 "\<close>, gives the numbers 3 and 4, answers
  \<^verbatim>\<open>areEqual\<close> with false and schedules nothing.
\<close>

theorem C1_swapped_operands_not_equal:
  "isCommutative (addInst 1 2) \<and> isBinaryOp (addInst 1 2)
   \<and> map_option fst (areEqual 1 swapHeap emptyTable 3 4) = Some False
   \<and> map_option (\<lambda>st. (expressionNumbering (VT st) ''13 1 2 '',
                         expressionNumbering (VT st) ''13 2 1 '',
                         valueNumbering (VT st) 3, valueNumbering (VT st) 4, toRemove st))
        (analyse 1 swapHeap swapFunc (DomTreeNode 100 []) (<))
       = Some (Some 3, Some 4, Some 3, Some 4, [])
   \<and> map_option fst (run 1 swapHeap swapFunc (DomTreeNode 100 []) (<)) = Some False"
  by (simp add: model_defs example_defs)

section \<open>Result types\<close>

text \<open>The expression string of an instruction is the same at every result type.\<close>

lemma expressionString_ignores_type:
  "expressionString (i\<lparr> instType := t \<rparr>) ks = expressionString i ks"
  by (simp add: expressionString_def)

text \<open>
  C4. The claim is that two operations of different result types are never judged
  equivalent. The expression string has no type in it: the loads
  \<^verbatim>\<open>%3 = load i32, ptr %1\<close> and \<^verbatim>\<open>%4 = load i64, ptr %1\<close> both give \<^verbatim>\<open>"32 1 0 "\<close>,
  \<^verbatim>\<open>areEqual\<close> answers true, and the driver schedules the \<^verbatim>\<open>i64\<close> load for replacement
  by the \<^verbatim>\<open>i32\<close> load.
\<close>

theorem C4_types_not_compared:
  "getType (loadHeap 3) = IntegerTy 32 \<and> getType (loadHeap 4) = IntegerTy 64
   \<and> map_option fst (areEqual 1 loadHeap emptyTable 3 4) = Some True
   \<and> map_option (\<lambda>st. (expressionNumbering (VT st) ''32 1 0 '',
                         valueNumbering (VT st) 3, valueNumbering (VT st) 4,
                         toRemove st, replacements st 4))
        (analyse 1 loadHeap loadFunc (DomTreeNode 100 []) (<))
       = Some (Some 2, Some 2, Some 2, [4], Some 3)"
  by (simp add: model_defs example_defs)

section \<open>The order of the blocks\<close>

text \<open>In the walk of any dominator tree the root, which dominates every block, comes last.\<close>

lemma post_order_root_last: "post_order t = butlast (post_order t) @ [getBlock t]"
  by (cases t) simp

text \<open>
  C2. The claim is that a block is visited after the blocks that strictly dominate it.
  The loop of the main pass walks \<^verbatim>\<open>post_order(DT.getRootNode())\<close>, which yields the
  children of a node of the dominator tree before the node. With the entry 100
  dominating 101 the walk is 101, 100: \<^verbatim>\<open>%5\<close> of block 101 is numbered first and becomes
  the representative of number 3, so \<^verbatim>\<open>%3\<close> of the entry, which dominates \<^verbatim>\<open>%5\<close> and
  computes the same sum, finds a representative that does not dominate it, and nothing
  is scheduled.
\<close>

theorem C2_dominated_block_visited_first:
  "post_order twoBlockTree = [101, 100]
   \<and> visitOrder domFunc twoBlockTree = [5, 6, 3, 4]
   \<and> map_option (\<lambda>st. (valueNumbering (VT st) 3, valueNumbering (VT st) 5,
                         numberToValue (VT st) 3, toRemove st))
        (analyse 1 domHeap domFunc twoBlockTree (<))
       = Some (Some 3, Some 3, Some 5, [])"
  by (simp add: model_defs example_defs)

section \<open>Recursion through a loop\<close>

lemma loopHeap_simps:
  "loopHeap (Suc 0) = Argument (IntegerTy 32)"
  "loopHeap 4 = Instruction (phiInst [(1, 100), (5, 101)])"
  "loopHeap 5 = Instruction (addInst 4 2)"
  by (simp_all add: loopHeap_def argHeap_def)

lemma loop_not_numbered:
  "valueNumbering vt 4 = None \<Longrightarrow> valueNumbering vt 5 = None \<Longrightarrow>
   lookupOrAddValue n loopHeap vt 4 = None \<and> lookupOrAddValue n loopHeap vt 5 = None"
proof (induction n arbitrary: vt)
  case 0
  then show ?case
    by (simp add: lookup_handled_0 loopHeap_simps example_insts)
next
  case (Suc n)
  have five: "lookupOrAddValue (Suc n) loopHeap vt 5 = None"
    using Suc.IH[of vt] Suc.prems
    by (simp add: lookup_handled_Suc[where H=loopHeap and v=5, OF loopHeap_simps(3)]
        example_insts)
  have "\<exists>k vt'. lookupOrAddValue n loopHeap vt 1 = Some (k, vt')
      \<and> valueNumbering vt' 4 = None \<and> valueNumbering vt' 5 = None"
    using Suc.prems
    by (cases "valueNumbering vt 1")
       (simp_all add: lookup_unhandled lookup_found loopHeap_simps createNewNumber_def Let_def)
  then obtain k vt' where k: "lookupOrAddValue n loopHeap vt 1 = Some (k, vt')"
    and n4: "valueNumbering vt' 4 = None" and n5: "valueNumbering vt' 5 = None" by blast
  have four: "lookupOrAddValue (Suc n) loopHeap vt 4 = None"
    using Suc.IH[OF n4 n5] Suc.prems k
    by (simp add: lookup_handled_Suc[where H=loopHeap and v=4, OF loopHeap_simps(2)]
        example_insts)
  from four five show ?case by simp
qed

text \<open>
  C3. The claim is that \<^verbatim>\<open>lookupOrAddValue\<close> returns for every node, a node entered
  again being treated as not yet equivalent to anything. The source has no such test:
  a handled instruction is entered in \<^verbatim>\<open>valueNumbering\<close> only after its expression string
  is built. On the loop \<^verbatim>\<open>%4 = phi [ %1 ], [ %5 ]\<close>, \<^verbatim>\<open>%5 = add %4, %2\<close> the two calls
  enter each other without end: no number of nested calls is enough for either node,
  and the pass does not return.
\<close>

theorem C3_loop_phi_never_returns:
  "lookupOrAddValue n loopHeap emptyTable 4 = None
   \<and> lookupOrAddValue n loopHeap emptyTable 5 = None
   \<and> run n loopHeap loopFunc twoBlockTree (<) = None"
proof -
  have e: "valueNumbering emptyTable 4 = None" "valueNumbering emptyTable 5 = None"
    by (simp_all add: emptyTable_def)
  note l = loop_not_numbered[OF e]
  have "phiAllSame n loopHeap emptyTable 1 [5] = None"
    using l[of n] by (simp add: areEqual_def)
  then have "run n loopHeap loopFunc twoBlockTree (<) = None"
    by (simp add: run_def analyse_def mainPass_def visitOrder_def instsOf_def prePass_def
        prePassInst_def initState_def processInst_def loopHeap_def loopFunc_def twoBlockTree_def
        argHeap_def phiInst_def brInst_def addInst_def mkInst_def)
  with l show ?thesis by simp
qed

text \<open>
  Where the operands of handled instructions descend along a rank, the recursion is
  bounded by the rank and the call returns.
\<close>

lemma lookupOrAddValue_returns_when_ranked:
  assumes R: "\<And>v i x. H v = Instruction i \<Longrightarrow> handled i \<Longrightarrow> x \<in> set (operands i)
                \<Longrightarrow> rank x < rank v"
  shows "rank v < n \<Longrightarrow> \<exists>r. lookupOrAddValue n H vt v = Some r"
proof (induction n arbitrary: vt v)
  case 0
  then show ?case by simp
next
  case (Suc n)
  have ops: "\<exists>r. numberOperands n H vt' vs = Some r" if "\<forall>x\<in>set vs. rank x < n" for vs vt'
    using that
  proof (induction vs arbitrary: vt')
    case Nil
    then show ?case by simp
  next
    case (Cons a vs)
    then obtain k vt1 where "lookupOrAddValue n H vt' a = Some (k, vt1)"
      using Suc.IH[of a vt'] by auto
    moreover obtain r where "numberOperands n H vt1 vs = Some r"
      using Cons.IH[of vt1] Cons.prems by auto
    ultimately show ?case by (cases r) simp
  qed
  show ?case
  proof (cases "H v")
    case (Instruction i)
    show ?thesis
    proof (cases "handled i")
      case True
      have "\<forall>x\<in>set (operands i). rank x < n"
        using R[OF Instruction True] Suc.prems by fastforce
      from ops[OF this, of vt] obtain ks vt'
        where "numberOperands n H vt (operands i) = Some (ks, vt')"
        by auto
      with Instruction True show ?thesis
        by (simp add: lookupOrAddValue.simps getExpressionString.simps split: option.splits)
    next
      case False
      with Instruction show ?thesis
        by (simp add: lookupOrAddValue.simps split: option.splits)
    qed
  qed (simp_all add: lookupOrAddValue.simps split: option.splits)
qed

section \<open>Chains in the schedule\<close>

text \<open>
  C7. The claim is that no replacement is itself scheduled for removal. A collapsed phi
  is replaced by its first incoming value whatever that value is. In the chain
  \<^verbatim>\<open>%4 = phi [ %1 ]\<close>, \<^verbatim>\<open>%6 = phi [ %4 ]\<close>, \<^verbatim>\<open>ret %6\<close> both phis are scheduled, \<^verbatim>\<open>%6\<close>
  with the replacement \<^verbatim>\<open>%4\<close>. The apply phase walks \<^verbatim>\<open>toRemove\<close> in the order 4, 6:
  it erases \<^verbatim>\<open>%4\<close>, then redirects the use of \<^verbatim>\<open>%6\<close> in \<^verbatim>\<open>ret\<close> to \<^verbatim>\<open>%4\<close>, which is in
  no block any more.
\<close>

theorem C7_replacement_scheduled_for_removal:
  "map_option (\<lambda>st. (toRemove st, replacements st 4, replacements st 6))
        (analyse 1 chainHeap chainFunc chainTree (<))
       = Some ([4, 6], Some 1, Some 4)
   \<and> map_option (\<lambda>(c, H', F'). (c, H' 7, F')) (run 1 chainHeap chainFunc chainTree (<))
       = Some (True, Instruction (retInst 4), [(100, [3]), (101, [5]), (102, [7])])"
  by (simp add: model_defs example_defs)

section \<open>Running the pass twice\<close>


section \<open>One number per node\<close>

lemma table_relation:
  fixes R :: "ValueTable \<Rightarrow> ValueTable \<Rightarrow> bool"
  assumes refl: "\<And>a. R a a"
    and trans: "\<And>a b c. R a b \<Longrightarrow> R b c \<Longrightarrow> R a c"
    and new: "\<And>a v. valueNumbering a v = None \<Longrightarrow> \<not> isNullConstant (H v) \<Longrightarrow>
                \<not> handledValue (H v) \<Longrightarrow> R a (snd (createNewNumber a v))"
    and expr: "\<And>a b v i ks. R a b \<Longrightarrow> valueNumbering a v = None \<Longrightarrow>
                H v = Instruction i \<Longrightarrow> handled i \<Longrightarrow>
                R a (snd (numberExpression b v (expressionString i ks)))"
  shows "lookupOrAddValue n H vt v = Some (k, vt') \<Longrightarrow> R vt vt'"
    and "numberOperands n H vt vs = Some (ks, vt') \<Longrightarrow> R vt vt'"
proof -
  have ops: "R vt vt'"
    if L: "\<And>vt v k vt'. lookupOrAddValue n H vt v = Some (k, vt') \<Longrightarrow> R vt vt'"
      and "numberOperands n H vt vs = Some (ks, vt')" for n vt vs ks vt'
    using that(2)
  proof (induction vs arbitrary: vt ks)
    case Nil
    then show ?case by (simp add: refl)
  next
    case (Cons a vs)
    then obtain k vt1 ks' where a: "lookupOrAddValue n H vt a = Some (k, vt1)"
      and r: "numberOperands n H vt1 vs = Some (ks', vt')"
      by (auto split: option.splits)
    from trans[OF L[OF a] Cons.IH[OF r]] show ?case .
  qed
  have look: "lookupOrAddValue n H vt v = Some (k, vt') \<Longrightarrow> R vt vt'" for n vt v k vt'
  proof (induction n arbitrary: vt v k vt')
    case 0
    then show ?case
    proof (cases rule: lookup_cases)
      case fresh
      with new[of vt v] show ?thesis by simp
    qed (simp_all add: refl)
  next
    case (Suc n)
    from Suc.prems show ?case
    proof (cases rule: lookup_cases)
      case fresh
      with new[of vt v] show ?thesis by simp
    next
      case (expr m i ks vt1)
      then have "R vt vt1" using ops[of n vt "operands i" ks vt1] Suc.IH by simp
      from assms(4)[OF this expr(4) expr(2) expr(3), of ks] expr(6)
      show ?thesis by simp
    qed (simp_all add: refl)
  qed
  show "lookupOrAddValue n H vt v = Some (k, vt') \<Longrightarrow> R vt vt'" by (rule look)
  show "numberOperands n H vt vs = Some (ks, vt') \<Longrightarrow> R vt vt'"
    using ops[of n vt vs ks vt'] look by blast
qed

text \<open>What every call preserves, \<^verbatim>\<open>areEqual\<close> and the loop over a phi preserve.\<close>

lemma areEqual_relation:
  fixes R :: "ValueTable \<Rightarrow> ValueTable \<Rightarrow> bool"
  assumes trans: "\<And>a b c. R a b \<Longrightarrow> R b c \<Longrightarrow> R a c"
    and step: "\<And>vt v k vt'. lookupOrAddValue n H vt v = Some (k, vt') \<Longrightarrow> R vt vt'"
  shows "areEqual n H vt V1 V2 = Some (b, vt') \<Longrightarrow> R vt vt'"
proof -
  assume "areEqual n H vt V1 V2 = Some (b, vt')"
  then obtain k1 vt1 k2 where a: "lookupOrAddValue n H vt V1 = Some (k1, vt1)"
    and c: "lookupOrAddValue n H vt1 V2 = Some (k2, vt')"
    by (auto simp: areEqual_def split: option.splits)
  from step[OF a] step[OF c] show "R vt vt'" by (rule trans)
qed

lemma phiAllSame_relation:
  fixes R :: "ValueTable \<Rightarrow> ValueTable \<Rightarrow> bool"
  assumes refl: "\<And>a. R a a"
    and trans: "\<And>a b c. R a b \<Longrightarrow> R b c \<Longrightarrow> R a c"
    and step: "\<And>vt v k vt'. lookupOrAddValue n H vt v = Some (k, vt') \<Longrightarrow> R vt vt'"
  shows "phiAllSame n H vt C vs = Some (b, vt') \<Longrightarrow> R vt vt'"
proof (induction vs arbitrary: vt)
  case Nil
  then show ?case by (simp add: refl)
next
  case (Cons a vs)
  show ?case
  proof (cases "a = C")
    case True
    with Cons show ?thesis by simp
  next
    case False
    with Cons.prems obtain e vt1 where e: "areEqual n H vt a C = Some (e, vt1)"
      and r: "(\<not> e \<and> vt' = vt1) \<or> (e \<and> phiAllSame n H vt1 C vs = Some (b, vt'))"
      by (auto split: option.splits if_splits)
    have 1: "R vt vt1"
    proof (rule areEqual_relation[where R = R and n = n and H = H, OF _ _ e])
      show "\<And>a b c. R a b \<Longrightarrow> R b c \<Longrightarrow> R a c" by (rule trans)
    qed (rule step)
    from r show ?thesis
    proof
      assume "\<not> e \<and> vt' = vt1"
      with 1 show ?thesis by simp
    next
      assume "e \<and> phiAllSame n H vt1 C vs = Some (b, vt')"
      with Cons.IH[of vt1] have "R vt1 vt'" by simp
      with 1 show ?thesis by (rule trans)
    qed
  qed
qed

lemma lookup_keepsNumbers:
  assumes "lookupOrAddValue n H vt v = Some (k, vt')"
  shows "keepsNumbers vt vt'"
  by (rule table_relation(1)[where R=keepsNumbers, OF _ _ _ _ assms])
     (auto simp: keepsNumbers_def createNewNumber_def numberExpression_def Let_def
        split: option.splits)

lemma lookup_binds:
  "lookupOrAddValue n H vt v = Some (k, vt') \<Longrightarrow> \<not> isNullConstant (H v) \<Longrightarrow>
   valueNumbering vt' v = Some k"
  by (erule lookup_cases)
     (auto simp: createNewNumber_def numberExpression_def Let_def split: option.splits)

text \<open>
  A handled instruction is not numbered while its own operands are: a call that came
  back to it would find it without a number and start over, and so never return.
\<close>

lemma stuck_write:
  "stuck H vt C \<Longrightarrow> X \<notin> C \<Longrightarrow>
   (\<And>c. c \<noteq> X \<Longrightarrow> valueNumbering vt' c = valueNumbering vt c) \<Longrightarrow> stuck H vt' C"
  unfolding stuck_def by (intro ballI) metis

lemma stuck_createNewNumber:
  "stuck H vt C \<Longrightarrow> X \<notin> C \<Longrightarrow> stuck H (snd (createNewNumber vt X)) C"
  by (erule stuck_write) (auto simp: createNewNumber_def Let_def)

lemma stuck_numberExpression:
  "stuck H vt C \<Longrightarrow> X \<notin> C \<Longrightarrow> stuck H (snd (numberExpression vt X s)) C"
  by (erule stuck_write) (auto simp: numberExpression_def Let_def split: option.splits)

lemma stuck_member:
  "stuck H vt C \<Longrightarrow> c \<in> C \<Longrightarrow>
   \<exists>i. H c = Instruction i \<and> handled i \<and> valueNumbering vt c = None
       \<and> (\<exists>x\<in>set (operands i). x \<in> C)"
  by (simp add: stuck_def)

lemma stuck_operands:
  assumes L: "\<And>vt X. stuck H vt C \<Longrightarrow>
      (X \<in> C \<longrightarrow> lookupOrAddValue n H vt X = None)
      \<and> (\<forall>k vt'. lookupOrAddValue n H vt X = Some (k, vt') \<longrightarrow> stuck H vt' C)"
  shows "stuck H vt C \<Longrightarrow> numberOperands n H vt vs = Some (ks, vt') \<Longrightarrow>
         stuck H vt' C \<and> set vs \<inter> C = {}"
proof (induction vs arbitrary: vt ks)
  case Nil
  then show ?case by simp
next
  case (Cons a vs)
  from Cons.prems(2) obtain k vt1 ks' where a: "lookupOrAddValue n H vt a = Some (k, vt1)"
    and r: "numberOperands n H vt1 vs = Some (ks', vt')"
    by (auto split: option.splits)
  from L[OF Cons.prems(1), of a] a have "a \<notin> C" "stuck H vt1 C" by auto
  with Cons.IH[OF _ r] show ?case by simp
qed

lemma stuck_lookup:
  "stuck H vt C \<Longrightarrow>
     (X \<in> C \<longrightarrow> lookupOrAddValue n H vt X = None)
     \<and> (\<forall>k vt'. lookupOrAddValue n H vt X = Some (k, vt') \<longrightarrow> stuck H vt' C)"
proof (induction n arbitrary: vt X)
  case 0
  show ?case
  proof (intro conjI impI allI)
    assume "X \<in> C"
    from stuck_member[OF 0 this] obtain i where "H X = Instruction i" "handled i"
      "valueNumbering vt X = None" by blast
    then show "lookupOrAddValue 0 H vt X = None"
      by (simp add: lookup_handled_0)
  next
    fix k vt' assume "lookupOrAddValue 0 H vt X = Some (k, vt')"
    then show "stuck H vt' C"
    proof (cases rule: lookup_cases)
      case fresh
      with stuck_member[OF 0, of X] have "X \<notin> C" by auto
      from stuck_createNewNumber[OF 0 this] fresh show ?thesis by simp
    qed (simp_all add: 0)
  qed
next
  case (Suc n)
  have ops: "stuck H vt' C \<and> set vs \<inter> C = {}"
    if "stuck H vt C" "numberOperands n H vt vs = Some (ks, vt')" for vt vs ks vt'
    by (rule stuck_operands[where n = n and ks = ks, OF _ that]) (rule Suc.IH)
  show ?case
  proof (intro conjI impI allI)
    assume XC: "X \<in> C"
    from stuck_member[OF Suc.prems XC] obtain i x where i: "H X = Instruction i" "handled i"
      "valueNumbering vt X = None" and x: "x \<in> set (operands i)" "x \<in> C" by blast
    have "numberOperands n H vt (operands i) = None"
    proof (cases "numberOperands n H vt (operands i)")
      case (Some r)
      with ops[OF Suc.prems, of "operands i" "fst r" "snd r"] x show ?thesis by auto
    qed simp
    with i show "lookupOrAddValue (Suc n) H vt X = None"
      by (simp add: lookup_handled_Suc)
  next
    fix k vt' assume "lookupOrAddValue (Suc n) H vt X = Some (k, vt')"
    then show "stuck H vt' C"
    proof (cases rule: lookup_cases)
      case fresh
      with stuck_member[OF Suc.prems, of X] have "X \<notin> C" by auto
      from stuck_createNewNumber[OF Suc.prems this] fresh show ?thesis by simp
    next
      case (expr m i ks vt1)
      with ops[OF Suc.prems, of "operands i" ks vt1]
      have s1: "stuck H vt1 C" and d: "set (operands i) \<inter> C = {}" by simp_all
      have "X \<notin> C"
      proof
        assume "X \<in> C"
        from stuck_member[OF Suc.prems this] expr(2) d show False by auto
      qed
      from stuck_numberExpression[OF s1 this, of "expressionString i ks"] expr(6)
      show ?thesis by simp
    qed (simp_all add: Suc.prems)
  qed
qed

lemma pendingEdges_mono:
  "keepsNumbers vt vt1 \<Longrightarrow> pendingEdges H vt1 \<subseteq> pendingEdges H vt"
  unfolding pendingEdges_def keepsNumbers_def
  by (auto) (metis option.exhaust option.distinct(1))

lemma numbered_by_createNewNumber:
  "valueNumbering (snd (createNewNumber vt X)) V \<noteq> None \<Longrightarrow> valueNumbering vt V = None \<Longrightarrow> V = X"
  by (auto simp: createNewNumber_def Let_def split: if_splits)

lemma numbered_by_numberExpression:
  "valueNumbering (snd (numberExpression vt X s)) V \<noteq> None \<Longrightarrow> valueNumbering vt V = None \<Longrightarrow> V = X"
  by (auto simp: numberExpression_def Let_def split: if_splits option.splits)

lemma reach_operands:
  assumes L: "\<And>vt X k vt'. lookupOrAddValue n H vt X = Some (k, vt') \<Longrightarrow>
      valueNumbering vt V = None \<Longrightarrow> valueNumbering vt' V \<noteq> None \<Longrightarrow>
      (X, V) \<in> (pendingEdges H vt)\<^sup>*"
  shows "numberOperands n H vt vs = Some (ks, vt') \<Longrightarrow>
      valueNumbering vt V = None \<Longrightarrow> valueNumbering vt' V \<noteq> None \<Longrightarrow>
      \<exists>x\<in>set vs. (x, V) \<in> (pendingEdges H vt)\<^sup>*"
proof (induction vs arbitrary: vt ks)
  case Nil
  then show ?case by simp
next
  case (Cons a vs)
  from Cons.prems(1) obtain k vt1 ks' where a: "lookupOrAddValue n H vt a = Some (k, vt1)"
    and r: "numberOperands n H vt1 vs = Some (ks', vt')"
    by (auto split: option.splits)
  show ?case
  proof (cases "valueNumbering vt1 V")
    case (Some j)
    with L[OF a Cons.prems(2)] show ?thesis by simp
  next
    case None
    from Cons.IH[OF r None Cons.prems(3)] obtain x where x: "x \<in> set vs"
      "(x, V) \<in> (pendingEdges H vt1)\<^sup>*" by blast
    from pendingEdges_mono[OF lookup_keepsNumbers[OF a]] x(2)
    have "(x, V) \<in> (pendingEdges H vt)\<^sup>*" by (rule rtrancl_mono[THEN subsetD])
    with x(1) show ?thesis by auto
  qed
qed

lemma reach_lookup:
  "lookupOrAddValue n H vt X = Some (k, vt') \<Longrightarrow>
   valueNumbering vt V = None \<Longrightarrow> valueNumbering vt' V \<noteq> None \<Longrightarrow>
   (X, V) \<in> (pendingEdges H vt)\<^sup>*"
proof (induction n arbitrary: vt X k vt')
  case 0
  from 0(1) show ?case
  proof (cases rule: lookup_cases)
    case fresh
    with numbered_by_createNewNumber[of vt X V] 0 show ?thesis by simp
  qed (use 0 in simp_all)
next
  case (Suc n)
  from Suc.prems(1) show ?case
  proof (cases rule: lookup_cases)
    case fresh
    with numbered_by_createNewNumber[of vt X V] Suc.prems show ?thesis by simp
  next
    case (expr m i ks vt1)
    show ?thesis
    proof (cases "valueNumbering vt1 V")
      case None
      with numbered_by_numberExpression[of vt1 X "expressionString i ks" V] expr(6) Suc.prems(3)
      show ?thesis by simp
    next
      case (Some j)
      have "\<exists>x\<in>set (operands i). (x, V) \<in> (pendingEdges H vt)\<^sup>*"
      proof (rule reach_operands[where n = n and ks = ks and vt' = vt1])
        show "numberOperands n H vt (operands i) = Some (ks, vt1)" using expr by simp
        show "valueNumbering vt1 V \<noteq> None" using Some by simp
      qed (use Suc.IH Suc.prems(2) in blast)+
      then obtain x where x: "x \<in> set (operands i)" "(x, V) \<in> (pendingEdges H vt)\<^sup>*"
        by blast
      from expr x(1) have "(X, x) \<in> pendingEdges H vt" by (auto simp: pendingEdges_def)
      from this x(2) show ?thesis by (rule converse_rtrancl_into_rtrancl)
    qed
  qed (use Suc.prems in simp_all)
qed

lemma operands_leave_unbound:
  assumes i: "H v = Instruction i" "handled i" and u: "valueNumbering vt v = None"
    and ops: "numberOperands n H vt (operands i) = Some (ks, vt')"
  shows "valueNumbering vt' v = None"
proof (rule ccontr)
  assume b: "valueNumbering vt' v \<noteq> None"
  let ?E = "pendingEdges H vt"
  let ?C = "{c. (c, v) \<in> ?E\<^sup>+}"
  have "\<exists>x\<in>set (operands i). (x, v) \<in> ?E\<^sup>*"
    by (rule reach_operands[where n = n and ks = ks and vt' = vt', OF _ ops u b])
       (rule reach_lookup)
  then obtain x where x: "x \<in> set (operands i)" "(x, v) \<in> ?E\<^sup>*" by blast
  from i u x(1) have "(v, x) \<in> ?E" by (auto simp: pendingEdges_def)
  from this x(2) have vv: "(v, v) \<in> ?E\<^sup>+" by (rule rtrancl_into_trancl2)
  have inC: "c \<in> ?C" if "(c, v) \<in> ?E\<^sup>*" for c
    using that vv by (auto dest: rtranclD)
  have "stuck H vt ?C"
    unfolding stuck_def
  proof
    fix c assume "c \<in> ?C"
    then obtain c' where e: "(c, c') \<in> ?E" and r: "(c', v) \<in> ?E\<^sup>*"
      by (auto dest: tranclD)
    from e obtain j where "H c = Instruction j" "handled j" "valueNumbering vt c = None"
      "c' \<in> set (operands j)" by (auto simp: pendingEdges_def)
    with inC[OF r]
    show "\<exists>i. H c = Instruction i \<and> handled i \<and> valueNumbering vt c = None
            \<and> (\<exists>x\<in>set (operands i). x \<in> ?C)" by blast
  qed
  then have "stuck H vt' ?C \<and> set (operands i) \<inter> ?C = {}"
    by (rule stuck_operands[where n = n and ks = ks, OF _ _ ops, rotated]) (rule stuck_lookup)
  with x(1) inC[OF x(2)] show False by auto
qed

text \<open>
  C9. \<^verbatim>\<open>lookupOrAddValue\<close> is idempotent per node. A call that returns \<open>k\<close> for \<open>v\<close>
  leaves \<open>v\<close> bound to \<open>k\<close> (a null constant is never entered and is always 0); it
  overwrites no binding the table had; the binding of a handled instruction is written
  into a table that has none for it yet, so it is written once; and a later call for
  \<open>v\<close>, directly or after a call for any other node, at any recursion budget, returns
  \<open>k\<close> and changes nothing.
\<close>

theorem C9_one_number_per_node:
  assumes first: "lookupOrAddValue n H vt v = Some (k, vt1)"
    and later: "lookupOrAddValue m H vt1 w = Some (j, vt2)"
  shows "lookupOrAddValue p H vt1 v = Some (k, vt1)
       \<and> lookupOrAddValue p H vt2 v = Some (k, vt2)
       \<and> (isNullConstant (H v) \<and> k = 0
            \<or> valueNumbering vt1 v = Some k \<and> valueNumbering vt2 v = Some k)
       \<and> keepsNumbers vt vt1 \<and> keepsNumbers vt1 vt2
       \<and> (H v = Instruction i \<and> handled i \<and> valueNumbering vt v = None
            \<and> getExpressionString q H vt i = Some (s, vtm)
           \<longrightarrow> valueNumbering vtm v = None)"
proof (cases "isNullConstant (H v)")
  case True
  with first have "k = 0" by (simp add: lookup_null)
  with True lookup_keepsNumbers[OF first] lookup_keepsNumbers[OF later] show ?thesis
    by (auto simp: lookup_null getExpressionString.simps split: option.splits
        dest: operands_leave_unbound)
next
  case False
  from lookup_binds[OF first False] have b1: "valueNumbering vt1 v = Some k" .
  with lookup_keepsNumbers[OF later] have b2: "valueNumbering vt2 v = Some k"
    by (simp add: keepsNumbers_def)
  from False b1 b2 lookup_keepsNumbers[OF first] lookup_keepsNumbers[OF later] show ?thesis
    by (auto simp: lookup_found getExpressionString.simps split: option.splits
        dest: operands_leave_unbound)
qed

theorem C9_one_number_per_node_witness:
  "lookupOrAddValue 0 swapHeap swapTable1 3 = Some (3, swapTable1)
   \<and> lookupOrAddValue 0 swapHeap swapTable2 3 = Some (3, swapTable2)
   \<and> valueNumbering swapTable1 3 = Some 3 \<and> valueNumbering swapTable2 3 = Some 3"
proof -
  have first: "lookupOrAddValue 1 swapHeap emptyTable 3 = Some (3, swapTable1)"
    by (simp add: swapTable1_def model_defs example_defs)
  have later: "lookupOrAddValue 1 swapHeap swapTable1 4 = Some (4, swapTable2)"
    by (simp add: swapTable2_def swapTable1_def model_defs example_defs)
  have "\<not> isNullConstant (swapHeap 3)"
    by (simp add: example_defs)
  with C9_one_number_per_node[OF first later, of 0] show ?thesis by simp
qed

section \<open>The dominance guard\<close>

lemma toRemove_schedule: "set (toRemove (schedule st I R)) = insert I (set (toRemove st))"
  by (auto simp: schedule_def insertPtr_def)

lemma numberInst_schedules_own:
  "numberInst n H d st I = Some st' \<Longrightarrow> set (toRemove st') \<subseteq> insert I (set (toRemove st))"
  by (auto simp: numberInst_def toRemove_schedule split: option.splits if_splits)

lemma processInst_schedules_own:
  assumes "processInst n H d st I = Some st'"
  shows "set (toRemove st') \<subseteq> insert I (set (toRemove st))"
proof -
  have n: "\<forall>vt. numberInst n H d (st\<lparr> VT := vt \<rparr>) I = Some st'
              \<longrightarrow> set (toRemove st') \<subseteq> insert I (set (toRemove st))"
    using numberInst_schedules_own[of n H d _ I st'] by fastforce
  have n0: "numberInst n H d st I = Some st'
              \<longrightarrow> set (toRemove st') \<subseteq> insert I (set (toRemove st))"
    using numberInst_schedules_own[of n H d st I st'] by blast
  from assms n n0 show ?thesis
    by (auto simp: processInst_def toRemove_schedule
        split: val.splits list.splits option.splits if_splits)
qed

lemma processInsts_schedules_own:
  "processInsts n H d st Is = Some st' \<Longrightarrow> set (toRemove st') \<subseteq> set (toRemove st) \<union> set Is"
proof (induction Is arbitrary: st)
  case Nil
  then show ?case by simp
next
  case (Cons I Is)
  then obtain st1 where 1: "processInst n H d st I = Some st1"
    and 2: "processInsts n H d st1 Is = Some st'"
    by (auto split: option.splits)
  from processInst_schedules_own[OF 1] Cons.IH[OF 2] show ?case by auto
qed

lemma instsOf_eraseFromParent:
  "instsOf (eraseFromParent F J) b = removeAll J (instsOf F b)"
proof -
  have "map_of (map (\<lambda>(b, is). (b, removeAll J is)) F) b = map_option (removeAll J) (map_of F b)"
    by (induction F) auto
  then show ?thesis
    by (simp add: instsOf_def eraseFromParent_def split: option.splits)
qed

lemma applyOne_keeps:
  "x \<noteq> J \<Longrightarrow> x \<in> set (instsOf (snd (applyOne repl J HF)) b) \<longleftrightarrow> x \<in> set (instsOf (snd HF) b)"
  by (simp add: applyOne_def instsOf_eraseFromParent split: option.splits)

lemma fold_applyOne_keeps:
  "x \<notin> set js \<Longrightarrow>
   x \<in> set (instsOf (snd (fold (applyOne repl) js HF)) b) \<longleftrightarrow> x \<in> set (instsOf (snd HF) b)"
  by (induction js arbitrary: HF) (simp_all add: applyOne_keeps)

lemma applyPhase_keeps:
  "x \<notin> set (toRemove st) \<Longrightarrow>
   x \<in> set (instsOf (snd (applyPhase st (H, F))) b) \<longleftrightarrow> x \<in> set (instsOf F b)"
  by (simp add: applyPhase_def fold_applyOne_keeps)

text \<open>
  C5. The instruction has just been numbered; its number has a representative
  \<open>Earlier\<close> that is another node and does not dominate it. Then the step leaves the
  schedule as it was and only stores the table. The visits of the other instructions
  schedule nothing but the instruction visited, so at the end of the main pass the
  instruction is still not in \<^verbatim>\<open>toRemove\<close>, and the apply phase, which erases members
  of \<^verbatim>\<open>toRemove\<close> only, leaves it in its block. A phi that the all-same test collapses
  never reaches this numbering step.
\<close>

theorem C5_representative_must_dominate:
  assumes look: "lookupOrAddValue n H (VT st) Inst = Some (VN, vt')"
    and rep: "numberToValue vt' VN = Some Earlier" "Earlier \<noteq> Inst"
    and nd: "\<not> dominates Earlier Inst"
    and fresh: "Inst \<notin> set (toRemove st)"
    and rest: "processInsts n H dominates (st\<lparr> VT := vt' \<rparr>) later = Some stF"
      "Inst \<notin> set later"
  shows "numberInst n H dominates st Inst = Some (st\<lparr> VT := vt' \<rparr>)
       \<and> Inst \<notin> set (toRemove stF)
       \<and> (Inst \<in> set (instsOf (snd (applyPhase stF (H, F))) b) \<longleftrightarrow> Inst \<in> set (instsOf F b))"
proof -
  from look rep nd have 1: "numberInst n H dominates st Inst = Some (st\<lparr> VT := vt' \<rparr>)"
    by (simp add: numberInst_def)
  from processInsts_schedules_own[OF rest(1)] fresh rest(2)
  have 2: "Inst \<notin> set (toRemove stF)" by auto
  from 1 2 applyPhase_keeps[OF 2] show ?thesis by simp
qed

theorem C5_representative_must_dominate_witness:
  "visitOrder sibFunc sibTree = [4, 5, 6, 7, 3]
   \<and> analyse 1 sibHeap sibFunc sibTree sibDominates = Some sibFinal
   \<and> valueNumbering sibTable 6 = Some 3 \<and> valueNumbering sibTable 4 = Some 3
   \<and> numberInst 1 sibHeap sibDominates sibState 6 = Some (sibState\<lparr> VT := sibTable \<rparr>)
   \<and> 6 \<notin> set (toRemove sibFinal)
   \<and> 6 \<in> set (instsOf (snd (applyPhase sibFinal (sibHeap, sibFunc))) 102)"
proof -
  have look: "lookupOrAddValue 1 sibHeap (VT sibState) 6 = Some (3, sibTable)"
    by (simp add: sibTable_def sibState_def model_defs example_defs)
  have rep: "numberToValue sibTable 3 = Some 4"
    by (simp add: sibTable_def sibState_def model_defs example_defs)
  have nd: "\<not> sibDominates 4 6" by (simp add: sibDominates_def)
  have fresh: "6 \<notin> set (toRemove sibState)"
    by (simp add: sibState_def model_defs example_defs)
  have rest: "processInsts 1 sibHeap sibDominates (sibState\<lparr> VT := sibTable \<rparr>) [7, 3]
      = Some sibFinal"
    by (simp add: sibFinal_def sibTable_def sibState_def model_defs example_defs)
  have v: "valueNumbering sibTable 6 = Some 3 \<and> valueNumbering sibTable 4 = Some 3"
    by (simp add: sibTable_def sibState_def model_defs example_defs)
  have m: "6 \<in> set (instsOf sibFunc 102)" by (simp add: instsOf_def sibFunc_def)
  have o: "visitOrder sibFunc sibTree = [4, 5, 6, 7, 3]"
    by (simp add: model_defs example_defs)
  have a: "analyse 1 sibHeap sibFunc sibTree sibDominates = Some sibFinal"
    by (simp add: sibFinal_def sibTable_def sibState_def model_defs example_defs)
  from C5_representative_must_dominate[OF look rep _ nd fresh rest, of sibFunc 102] m v o a
  show ?thesis by simp
qed

section \<open>Instructions that are not handled\<close>

lemma tableCore_emptyTable: "tableCore H emptyTable"
  by (simp add: tableCore_def emptyTable_def lastNumber_def)

lemma tableStep_refl: "tableStep H a a"
  by (simp add: tableStep_def)

lemma tableStep_trans: "tableStep H a b \<Longrightarrow> tableStep H b c \<Longrightarrow> tableStep H a c"
  by (auto simp: tableStep_def)

lemma tableCore_fresh_key:
  assumes "tableCore H vt"
  shows "numberToValue vt (nextValueNumber vt) = None"
    and "numberToValue vt k = Some r \<Longrightarrow> k \<noteq> nextValueNumber vt"
proof -
  from assms have d: "dom (numberToValue vt) = {1..<nextValueNumber vt}"
    by (simp add: tableCore_def)
  then have "nextValueNumber vt \<notin> dom (numberToValue vt)" by simp
  then show "numberToValue vt (nextValueNumber vt) = None" by blast
  then show "numberToValue vt k = Some r \<Longrightarrow> k \<noteq> nextValueNumber vt" by auto
qed

lemma incr32_below: "n < lastNumber \<Longrightarrow> incr32 n = Suc n"
  by (simp add: incr32_def lastNumber_def)

text \<open>Minting a number for \<open>v\<close>, with or without a new signature.\<close>

lemma tableCore_mint:
  assumes c: "tableCore H vt"
    and u: "handledValue (H v) \<or> valueNumbering vt v = None"
    and vn: "valueNumbering vt' = (valueNumbering vt)(v \<mapsto> nextValueNumber vt)"
    and nv: "numberToValue vt' = (numberToValue vt)(nextValueNumber vt \<mapsto> v)"
    and nx: "nextValueNumber vt' = incr32 (nextValueNumber vt)"
    and en: "expressionNumbering vt' = expressionNumbering vt
           \<or> handledValue (H v)
             \<and> expressionNumbering vt' = (expressionNumbering vt)(s \<mapsto> nextValueNumber vt)"
  shows "wrapped vt' \<or> tableCore H vt'"
proof (cases "nextValueNumber vt = lastNumber")
  case True
  with nv show ?thesis by (simp add: wrapped_def)
next
  case False
  let ?N = "nextValueNumber vt"
  from c False have lt: "?N < lastNumber" and ge: "1 \<le> ?N" by (simp_all add: tableCore_def)
  from c have d: "dom (numberToValue vt) = {1..<?N}" by (simp add: tableCore_def)
  note fk = tableCore_fresh_key[OF c]
  have n': "nextValueNumber vt' = Suc ?N" using nx lt by (simp add: incr32_below)
  have 1: "1 \<le> nextValueNumber vt' \<and> nextValueNumber vt' \<le> lastNumber"
    using n' lt by simp
  have "dom (numberToValue vt') = insert ?N {1..<?N}"
    using nv d by simp
  also have "\<dots> = {1..<Suc ?N}" using ge by auto
  finally have 2: "dom (numberToValue vt') = {1..<nextValueNumber vt'}"
    using n' by simp
  have old: "numberToValue vt' k = numberToValue vt k" if "numberToValue vt k = Some r" for k r
    using fk(2)[OF that] nv by simp
  have 3: "if handledValue (H w)
           then \<exists>r. numberToValue vt' k = Some r \<and> handledValue (H r)
           else numberToValue vt' k = Some w"
    if w: "valueNumbering vt' w = Some k" for w k
  proof (cases "w = v")
    case True
    with w vn nv show ?thesis by simp
  next
    case False
    with w vn have o: "valueNumbering vt w = Some k" by simp
    with c have p: "if handledValue (H w)
           then \<exists>r. numberToValue vt k = Some r \<and> handledValue (H r)
           else numberToValue vt k = Some w"
      unfolding tableCore_def by blast
    show ?thesis
    proof (cases "handledValue (H w)")
      case True
      with p obtain r where "numberToValue vt k = Some r" "handledValue (H r)" by auto
      with old[of k r] True show ?thesis by simp
    next
      case False
      with p old[of k w] show ?thesis by simp
    qed
  qed
  have 4: "\<exists>r. numberToValue vt' k = Some r \<and> handledValue (H r)"
    if e: "expressionNumbering vt' t = Some k" for t k
  proof (cases "expressionNumbering vt t = Some k")
    case True
    with c have "\<exists>r. numberToValue vt k = Some r \<and> handledValue (H r)"
      unfolding tableCore_def by blast
    then obtain r where "numberToValue vt k = Some r" "handledValue (H r)" by blast
    with old[of k r] show ?thesis by simp
  next
    case False
    with e en have "handledValue (H v)" "k = ?N"
      by (auto split: if_splits)
    with nv show ?thesis by simp
  qed
  from 1 2 3 4 have "tableCore H vt'" unfolding tableCore_def by blast
  then show ?thesis ..
qed

lemma wrapped_createNewNumber: "wrapped a \<Longrightarrow> wrapped (snd (createNewNumber a v))"
  by (simp add: wrapped_def createNewNumber_def Let_def)

lemma wrapped_numberExpression: "wrapped a \<Longrightarrow> wrapped (snd (numberExpression a v s))"
  by (simp add: wrapped_def numberExpression_def Let_def split: option.splits)

lemma tableCore_createNewNumber:
  assumes "tableCore H a" "valueNumbering a v = None"
  shows "wrapped (snd (createNewNumber a v)) \<or> tableCore H (snd (createNewNumber a v))"
  by (rule tableCore_mint[OF assms(1)]) (simp_all add: assms(2) createNewNumber_def Let_def)

lemma tableCore_bind:
  assumes c: "tableCore H b" and h: "handledValue (H v)"
    and e: "expressionNumbering b s = Some k"
  shows "tableCore H (b\<lparr> valueNumbering := (valueNumbering b)(v \<mapsto> k) \<rparr>)"
proof -
  from c e have r: "\<exists>r. numberToValue b k = Some r \<and> handledValue (H r)"
    unfolding tableCore_def by blast
  from c have o: "valueNumbering b w = Some j \<Longrightarrow>
      (if handledValue (H w)
       then \<exists>r. numberToValue b j = Some r \<and> handledValue (H r)
       else numberToValue b j = Some w)" for w j
    unfolding tableCore_def by blast
  from c have x: "expressionNumbering b t = Some j \<Longrightarrow>
      \<exists>r. numberToValue b j = Some r \<and> handledValue (H r)" for t j
    unfolding tableCore_def by blast
  from c have n: "1 \<le> nextValueNumber b \<and> nextValueNumber b \<le> lastNumber
      \<and> dom (numberToValue b) = {1..<nextValueNumber b}"
    unfolding tableCore_def by blast
  show ?thesis
    unfolding tableCore_def using n r h o x by (auto split: if_splits)
qed

lemma tableCore_numberExpression:
  assumes c: "tableCore H b" and h: "handledValue (H v)"
  shows "wrapped (snd (numberExpression b v s)) \<or> tableCore H (snd (numberExpression b v s))"
proof (cases "expressionNumbering b s")
  case (Some k)
  with tableCore_bind[OF c h Some] show ?thesis
    by (simp add: numberExpression_def)
next
  case None
  have "wrapped (snd (numberExpression b v s)) \<or> tableCore H (snd (numberExpression b v s))"
    by (rule tableCore_mint[OF c, where v = v and s = s])
       (simp_all add: h None numberExpression_def Let_def)
  then show ?thesis .
qed

lemma lookup_tableStep:
  assumes "lookupOrAddValue n H vt v = Some (k, vt')"
  shows "tableStep H vt vt'"
proof (rule table_relation(1)[where R = "tableStep H", OF _ _ _ _ assms])
  show "tableStep H a a" for a by (rule tableStep_refl)
  show "tableStep H a b \<Longrightarrow> tableStep H b c \<Longrightarrow> tableStep H a c" for a b c
    by (rule tableStep_trans)
  show "tableStep H a (snd (createNewNumber a v))" if "valueNumbering a v = None" for a v
    using that by (simp add: tableStep_def wrapped_createNewNumber tableCore_createNewNumber)
  show "tableStep H a (snd (numberExpression b v (expressionString i ks)))"
    if "tableStep H a b" "H v = Instruction i" "handled i" for a b v i ks
  proof -
    from that(2,3) have h: "handledValue (H v)" by simp
    note w = wrapped_numberExpression[of _ v "expressionString i ks"]
    note c = tableCore_numberExpression[where H = H and v = v and s = "expressionString i ks",
        OF _ h]
    from that(1) w c show ?thesis unfolding tableStep_def by blast
  qed
qed

lemma lookup_signaturesHandled:
  assumes "lookupOrAddValue n H vt v = Some (k, vt')"
  shows "signaturesHandled H vt \<longrightarrow> signaturesHandled H vt'"
proof (rule table_relation(1)[where R = "\<lambda>a b. signaturesHandled H a \<longrightarrow> signaturesHandled H b",
      OF _ _ _ _ assms])
  show "signaturesHandled H a \<longrightarrow> signaturesHandled H (snd (createNewNumber a v))" for a v
    by (simp add: signaturesHandled_def createNewNumber_def Let_def)
  show "signaturesHandled H a \<longrightarrow>
        signaturesHandled H (snd (numberExpression b v (expressionString i ks)))"
    if "signaturesHandled H a \<longrightarrow> signaturesHandled H b" "H v = Instruction i" "handled i"
    for a b v i ks
    using that unfolding signaturesHandled_def numberExpression_def Let_def
    by (auto split: option.splits if_splits)
qed simp_all

lemma lookup_runStep:
  "lookupOrAddValue n H vt v = Some (k, vt') \<Longrightarrow> runStep H vt vt'"
  by (simp add: runStep_def lookup_tableStep lookup_signaturesHandled)

lemma runStep_refl: "runStep H a a"
  by (simp add: runStep_def tableStep_refl)

lemma runStep_trans: "runStep H a b \<Longrightarrow> runStep H b c \<Longrightarrow> runStep H a c"
  by (auto simp: runStep_def intro: tableStep_trans)

lemma phiAllSame_runStep:
  assumes "phiAllSame n H vt C vs = Some (b, vt')"
  shows "runStep H vt vt'"
proof (rule phiAllSame_relation[where R = "runStep H", OF _ _ _ assms])
  show "runStep H a a" for a by (rule runStep_refl)
  show "runStep H a b \<Longrightarrow> runStep H b c \<Longrightarrow> runStep H a c" for a b c
    by (rule runStep_trans)
  show "lookupOrAddValue n H vt v = Some (k, vt') \<Longrightarrow> runStep H vt vt'" for vt v k vt'
    by (rule lookup_runStep)
qed

lemma runInv_VT:
  "runInv H st \<Longrightarrow> runStep H (VT st) vt \<Longrightarrow> runInv H (st\<lparr> VT := vt \<rparr>)"
  by (auto simp: runInv_def runStep_def tableStep_def)

lemma runInv_schedule:
  "runInv H st \<Longrightarrow> handledValue (H I) \<Longrightarrow> runInv H (schedule st I R)"
  by (auto simp: runInv_def schedule_def insertPtr_def)

lemma runInv_initState: "runInv H initState"
proof -
  have "signaturesHandled H emptyTable"
    by (simp add: signaturesHandled_def emptyTable_def)
  then show ?thesis
    by (simp add: runInv_def initState_def tableCore_emptyTable)
qed

lemma handledValue_phi: "H I = Instruction i \<Longrightarrow> isPHINode i \<Longrightarrow> handledValue (H I)"
  by (simp add: handled_def)

lemma runInv_prePassInst: "runInv H st \<Longrightarrow> runInv H (prePassInst H st I)"
  by (auto simp: prePassInst_def split: val.splits list.splits
      intro!: runInv_schedule handledValue_phi)

lemma runInv_prePass: "runInv H st \<Longrightarrow> runInv H (prePass H F st)"
proof -
  have "runInv H st \<Longrightarrow> runInv H (fold (\<lambda>I s. prePassInst H s I) xs st)" for xs
    by (induction xs arbitrary: st) (simp_all add: runInv_prePassInst)
  then show "runInv H st \<Longrightarrow> runInv H (prePass H F st)" by (simp add: prePass_def)
qed

lemma tableCore_unhandled_rep:
  "tableCore H vt \<Longrightarrow> valueNumbering vt v = Some k \<Longrightarrow> \<not> handledValue (H v) \<Longrightarrow>
   numberToValue vt k = Some v"
  unfolding tableCore_def by metis

lemma runInv_numberInst:
  assumes inv: "runInv H st" and i: "H I = Instruction i"
    and n: "numberInst n H d st I = Some st'"
  shows "runInv H st'"
proof -
  from n obtain VN vt' where l: "lookupOrAddValue n H (VT st) I = Some (VN, vt')"
    by (auto simp: numberInst_def split: option.splits)
  from runInv_VT[OF inv lookup_runStep[OF l]] have inv': "runInv H (st\<lparr> VT := vt' \<rparr>)" .
  from i lookup_binds[OF l] have b: "valueNumbering vt' I = Some VN" by simp
  show ?thesis
  proof (cases "st' = st\<lparr> VT := vt' \<rparr>")
    case True
    with inv' show ?thesis by simp
  next
    case False
    with n l obtain Earlier where e: "numberToValue vt' VN = Some Earlier" "Earlier \<noteq> I"
      and s: "st' = schedule (st\<lparr> VT := vt' \<rparr>) I Earlier"
      by (auto simp: numberInst_def split: option.splits if_splits)
    show ?thesis
    proof (cases "wrapped vt'")
      case True
      with inv' s show ?thesis by (simp add: runInv_def schedule_def)
    next
      case False
      with inv' have c: "tableCore H vt'" by (simp add: runInv_def)
      have "handledValue (H I)"
      proof (rule ccontr)
        assume "\<not> handledValue (H I)"
        from tableCore_unhandled_rep[OF c b this] e show False by simp
      qed
      with inv' s show ?thesis by (simp add: runInv_schedule)
    qed
  qed
qed

lemma runInv_processInst:
  assumes inv: "runInv H st" and p: "processInst n H d st I = Some st'"
  shows "runInv H st'"
proof (cases "H I")
  case (Instruction i)
  note ni = runInv_numberInst[where H = H and I = I, OF _ Instruction]
  show ?thesis
  proof (cases "isTerminator i \<or> mayHaveSideEffects i \<or> isEHPad i")
    case True
    with p Instruction inv show ?thesis by (simp add: processInst_def)
  next
    case el: False
    show ?thesis
    proof (cases "isPHINode i")
      case False
      with p Instruction el have "numberInst n H d st I = Some st'"
        by (simp add: processInst_def)
      from ni[OF inv this] show ?thesis .
    next
      case True
      show ?thesis
      proof (cases "operands i")
        case Nil
        with p Instruction el True inv show ?thesis by (simp add: processInst_def)
      next
        case (Cons C rest)
        with p Instruction el True obtain a vt' where
          ph: "phiAllSame n H (VT st) C rest = Some (a, vt')"
          and r: "(a \<and> st' = schedule (st\<lparr> VT := vt' \<rparr>) I C)
               \<or> (\<not> a \<and> numberInst n H d (st\<lparr> VT := vt' \<rparr>) I = Some st')"
          by (auto simp: processInst_def split: option.splits if_splits)
        from runInv_VT[OF inv phiAllSame_runStep[OF ph]]
        have inv': "runInv H (st\<lparr> VT := vt' \<rparr>)" .
        from r show ?thesis
        proof
          assume "a \<and> st' = schedule (st\<lparr> VT := vt' \<rparr>) I C"
          with inv' handledValue_phi[where H = H and I = I, OF Instruction True] show ?thesis
            by (simp add: runInv_schedule)
        next
          assume "\<not> a \<and> numberInst n H d (st\<lparr> VT := vt' \<rparr>) I = Some st'"
          then have "numberInst n H d (st\<lparr> VT := vt' \<rparr>) I = Some st'" by simp
          from ni[OF inv' this] show ?thesis .
        qed
      qed
    qed
  qed
qed (use p inv in \<open>simp_all add: processInst_def\<close>)

lemma runInv_processInsts:
  "runInv H st \<Longrightarrow> processInsts n H d st Is = Some st' \<Longrightarrow> runInv H st'"
  by (induction Is arbitrary: st) (auto split: option.splits dest: runInv_processInst)

lemma runInv_analyse: "analyse n H F root d = Some st \<Longrightarrow> runInv H st"
  unfolding analyse_def mainPass_def
  by (rule runInv_processInsts[rotated], assumption, rule runInv_prePass, rule runInv_initState)

text \<open>
  C10. After the two passes, as long as the counter has not wrapped:
  every key of the signature table is the string of a binary operation, comparison,
  load or phi; an instruction \<open>v\<close> of any other kind is not scheduled; if it has a
  number, it is the representative of that number, no other node has the number and no
  signature maps to it. Whatever the table, \<^verbatim>\<open>lookupOrAddValue\<close> on such an instruction
  with no number yet returns the current value of the counter and leaves the signature
  table as it was.
\<close>

theorem C10_unhandled_never_shared:
  assumes run: "analyse n H F root dominates = Some st"
    and v: "H v = Instruction i" "\<not> handled i"
    and nowrap: "numberToValue (VT st) lastNumber = None"
  shows "v \<notin> set (toRemove st)
       \<and> signaturesHandled H (VT st)
       \<and> (valueNumbering (VT st) v = Some k
            \<longrightarrow> numberToValue (VT st) k = Some v
              \<and> (\<forall>w. valueNumbering (VT st) w = Some k \<longrightarrow> w = v)
              \<and> (\<forall>s. expressionNumbering (VT st) s \<noteq> Some k))
       \<and> (valueNumbering vt v = None
            \<longrightarrow> lookupOrAddValue m H vt v = Some (createNewNumber vt v)
              \<and> fst (createNewNumber vt v) = nextValueNumber vt
              \<and> expressionNumbering (snd (createNewNumber vt v)) = expressionNumbering vt)"
proof -
  from v have u: "\<not> handledValue (H v)" "\<not> isNullConstant (H v)" by simp_all
  from runInv_analyse[OF run] nowrap
  have sh: "signaturesHandled H (VT st)" and c: "tableCore H (VT st)"
    and sched: "\<forall>x\<in>set (toRemove st). handledValue (H x)"
    by (auto simp: runInv_def wrapped_def)
  from sched u have 1: "v \<notin> set (toRemove st)" by blast
  have 3: "numberToValue (VT st) k = Some v
         \<and> (\<forall>w. valueNumbering (VT st) w = Some k \<longrightarrow> w = v)
         \<and> (\<forall>s. expressionNumbering (VT st) s \<noteq> Some k)"
    if b: "valueNumbering (VT st) v = Some k"
  proof -
    from tableCore_unhandled_rep[OF c b u(1)] have r: "numberToValue (VT st) k = Some v" .
    have "w = v" if w: "valueNumbering (VT st) w = Some k" for w
    proof (cases "handledValue (H w)")
      case True
      with c w have "\<exists>r. numberToValue (VT st) k = Some r \<and> handledValue (H r)"
        unfolding tableCore_def by metis
      with r u show ?thesis by simp
    next
      case False
      from tableCore_unhandled_rep[OF c w False] r show ?thesis by simp
    qed
    moreover have "expressionNumbering (VT st) s \<noteq> Some k" for s
    proof
      assume "expressionNumbering (VT st) s = Some k"
      with c have "\<exists>r. numberToValue (VT st) k = Some r \<and> handledValue (H r)"
        unfolding tableCore_def by metis
      with r u show False by simp
    qed
    ultimately show ?thesis using r by blast
  qed
  have 4: "lookupOrAddValue m H vt v = Some (createNewNumber vt v)
         \<and> fst (createNewNumber vt v) = nextValueNumber vt
         \<and> expressionNumbering (snd (createNewNumber vt v)) = expressionNumbering vt"
    if "valueNumbering vt v = None"
    using that u by (simp add: lookup_unhandled createNewNumber_def Let_def)
  from 1 sh 3 4 show ?thesis by blast
qed

theorem C10_unhandled_never_shared_witness:
  "3 \<notin> set (toRemove castFinal) \<and> 4 \<notin> set (toRemove castFinal)
   \<and> valueNumbering (VT castFinal) 3 = Some 1 \<and> valueNumbering (VT castFinal) 4 = Some 2
   \<and> numberToValue (VT castFinal) 2 = Some 4
   \<and> expressionNumbering (VT castFinal) ''39 1 '' \<noteq> Some 2"
proof -
  have run: "analyse 0 castHeap castFunc (DomTreeNode 100 []) (<) = Some castFinal"
    by (simp add: castFinal_def model_defs example_defs)
  have v3: "castHeap 3 = Instruction (zextInst 1)" and v4: "castHeap 4 = Instruction (zextInst 1)"
    by (simp_all add: castHeap_def)
  have u: "\<not> handled (zextInst 1)" by (simp add: handled_def zextInst_def mkInst_def)
  have nowrap: "numberToValue (VT castFinal) lastNumber = None"
    by (simp add: castFinal_def lastNumber_def model_defs example_defs)
  have b: "valueNumbering (VT castFinal) 3 = Some 1" "valueNumbering (VT castFinal) 4 = Some 2"
    by (simp_all add: castFinal_def model_defs example_defs)
  note t3 = C10_unhandled_never_shared[OF run v3 u nowrap, of 1]
  note t4 = C10_unhandled_never_shared[OF run v4 u nowrap, of 2]
  from t3 have 1: "3 \<notin> set (toRemove castFinal)" by (rule conjunct1)
  from t4 have 2: "4 \<notin> set (toRemove castFinal)" by (rule conjunct1)
  from t4 b(2) have 3: "numberToValue (VT castFinal) 2 = Some 4
      \<and> expressionNumbering (VT castFinal) ''39 1 '' \<noteq> Some 2" by blast
  from 1 2 3 b show ?thesis by blast
qed

section \<open>The second run\<close>

text \<open>
  The rest of the theory is the proof of the amended C8. The second run works on the
  function the apply phase of the first one left: the scheduled instructions are gone,
  and every use of one is a use of its replacement. The proof walks the two runs side by
  side along the visit order of the first and shows that the second gives every
  instruction that is still there the number the first one gave it, so that it finds for
  it the same earlier instruction and decides as the first run did: not to schedule it.
\<close>

subsection \<open>The expression string determines the operand numbers\<close>











subsection \<open>What the table keeps until the counter wraps\<close>



























subsection \<open>The schedule of the first run\<close>






















subsection \<open>The apply phase is one substitution\<close>




lemma substHeap_other:
  "\<not> isInstruction (H v) \<Longrightarrow> substHeap f H v = H v"
  by (cases "H v") (simp_all add: substHeap_def)

lemma substHeap_null [simp]: "isNullConstant (substHeap f H v) = isNullConstant (H v)"
  by (cases "H v") (simp_all add: substHeap_def)

lemma substHeap_isInstruction [simp]: "isInstruction (substHeap f H v) = isInstruction (H v)"
  by (cases "H v") (simp_all add: substHeap_def)

lemma substHeap_handledValue [simp]: "handledValue (substHeap f H v) = handledValue (H v)"
  by (cases "H v") (simp_all add: substHeap_def handled_def)

lemma handled_operands [simp]: "handled (i\<lparr> operands := ys \<rparr>) = handled i"
  by (simp add: handled_def)

lemma expressionString_operands [simp]:
  "expressionString (i\<lparr> operands := ys \<rparr>) ks = expressionString i ks"
  by (simp add: expressionString_def)






subsection \<open>The second run numbers as the first\<close>
















subsection \<open>The second run schedules nothing\<close>











end
